theory Spec2Isabelle
  imports Main "HOL-Library.Word"
begin

section \<open>Run configuration\<close>

text \<open>
  The file-scope variables of \<^verbatim>\<open>blindscan.c\<close> (lines 18 to 26) that \<^verbatim>\<open>handle_args\<close> fills
  once and that the rest of the program only reads.
\<close>

type_synonym u32 = "32 word"

record config =
  start_frequency_mhz :: u32
  stop_frequency_mhz :: u32
  symbolrate_min_mhz :: u32
  symbolrate_max_mhz :: u32
  vertical :: bool
  cband :: bool
  high :: bool
  slot :: int
  i2c :: int

section \<open>Result formatter: unit conversion\<close>

text \<open>
  Lines 295 and 305: \<^verbatim>\<open>x = ((x + 500) / 1000) * 1000\<close> on a \<^verbatim>\<open>uint32_t\<close>. All three
  operations are those of the 32-bit unsigned type, so the addition and the multiplication
  wrap around.
\<close>

definition round_to_1000 :: "u32 \<Rightarrow> u32" where
  "round_to_1000 x = ((x + 500) div 1000) * 1000"

text \<open>
  Lines 296 to 301: the band shift of the rounded frequency. The test of \<^verbatim>\<open>cband\<close> comes
  first; \<^verbatim>\<open>high\<close> is looked at in its else branch only.
\<close>

definition band_shift :: "bool \<Rightarrow> bool \<Rightarrow> u32 \<Rightarrow> u32" where
  "band_shift cb hi frequency =
     (if cb then 5150000 - frequency
      else if hi then frequency + 10600000
      else frequency + 9750000)"

definition output_frequency :: "config \<Rightarrow> u32 \<Rightarrow> u32" where
  "output_frequency cfg raw = band_shift (cband cfg) (high cfg) (round_to_1000 raw)"

section \<open>Result formatter: enumeration labels\<close>

text \<open>
  The \<^verbatim>\<open>switch\<close> statements of lines 309 to 412 compare the driver's raw codes with
  enumeration constants of \<^verbatim>\<open>linux/dvb/frontend.h\<close>. That header belongs to the kernel, not
  to this repository, so the constants are a parameter of the model: one field for each
  constant the program names.
\<close>

record frontend_h =
  SYS_DVBS :: int
  INVERSION_OFF :: int
  INVERSION_ON :: int
  PILOT_ON :: int
  PILOT_OFF :: int
  FEC_1_2 :: int
  FEC_2_3 :: int
  FEC_3_4 :: int
  FEC_4_5 :: int
  FEC_5_6 :: int
  FEC_6_7 :: int
  FEC_7_8 :: int
  FEC_8_9 :: int
  FEC_3_5 :: int
  FEC_9_10 :: int
  FEC_2_5 :: int
  PSK_8 :: int
  APSK_16 :: int
  APSK_32 :: int
  ROLLOFF_20 :: int
  ROLLOFF_25 :: int

text \<open>
  The values the kernel's user-space API header gives these constants (positions in
  \<^verbatim>\<open>enum fe_delivery_system\<close>, \<^verbatim>\<open>fe_spectral_inversion\<close>, \<^verbatim>\<open>fe_pilot\<close>, \<^verbatim>\<open>fe_code_rate\<close>,
  \<^verbatim>\<open>fe_modulation\<close> and \<^verbatim>\<open>fe_rolloff\<close>). They are used to instantiate the general results.
\<close>

definition linux_frontend_h :: frontend_h where
  "linux_frontend_h =
     \<lparr>SYS_DVBS = 5, INVERSION_OFF = 0, INVERSION_ON = 1, PILOT_ON = 0, PILOT_OFF = 1,
      FEC_1_2 = 1, FEC_2_3 = 2, FEC_3_4 = 3, FEC_4_5 = 4, FEC_5_6 = 5, FEC_6_7 = 6,
      FEC_7_8 = 7, FEC_8_9 = 8, FEC_3_5 = 10, FEC_9_10 = 11, FEC_2_5 = 12,
      PSK_8 = 9, APSK_16 = 10, APSK_32 = 11, ROLLOFF_20 = 1, ROLLOFF_25 = 2\<rparr>"

text \<open>
  C rejects a \<^verbatim>\<open>switch\<close> with two equal case labels, so the program compiles only against
  headers for which the labels of each \<^verbatim>\<open>switch\<close> are pairwise different.
\<close>

definition inversion_cases :: "frontend_h \<Rightarrow> int list" where
  "inversion_cases K = [INVERSION_OFF K, INVERSION_ON K]"

definition pilot_cases :: "frontend_h \<Rightarrow> int list" where
  "pilot_cases K = [PILOT_ON K, PILOT_OFF K]"

definition fec_cases :: "frontend_h \<Rightarrow> int list" where
  "fec_cases K = [FEC_1_2 K, FEC_2_3 K, FEC_3_4 K, FEC_4_5 K, FEC_5_6 K, FEC_6_7 K,
                  FEC_7_8 K, FEC_8_9 K, FEC_3_5 K, FEC_9_10 K, FEC_2_5 K]"

definition modulation_cases :: "frontend_h \<Rightarrow> int list" where
  "modulation_cases K = [PSK_8 K, APSK_16 K, APSK_32 K]"

definition rolloff_cases :: "frontend_h \<Rightarrow> int list" where
  "rolloff_cases K = [ROLLOFF_20 K, ROLLOFF_25 K]"

definition switches_compile :: "frontend_h \<Rightarrow> bool" where
  "switches_compile K \<longleftrightarrow>
     distinct (inversion_cases K) \<and> distinct (pilot_cases K) \<and> distinct (fec_cases K) \<and>
     distinct (modulation_cases K) \<and> distinct (rolloff_cases K)"

text \<open>Line 309.\<close>

definition delivery_system_label :: "frontend_h \<Rightarrow> int \<Rightarrow> string" where
  "delivery_system_label K c = (if c = SYS_DVBS K then ''DVB-S'' else ''DVB-S2'')"

text \<open>Lines 311 to 322.\<close>

definition inversion_label :: "frontend_h \<Rightarrow> int \<Rightarrow> string" where
  "inversion_label K c =
     (if c = INVERSION_OFF K then ''INVERSION_OFF''
      else if c = INVERSION_ON K then ''INVERSION_ON''
      else ''INVERSION_AUTO'')"

text \<open>Lines 326 to 337.\<close>

definition pilot_label :: "frontend_h \<Rightarrow> int \<Rightarrow> string" where
  "pilot_label K c =
     (if c = PILOT_ON K then ''PILOT_ON''
      else if c = PILOT_OFF K then ''PILOT_OFF''
      else ''PILOT_AUTO'')"

text \<open>Lines 341 to 379.\<close>

definition fec_label :: "frontend_h \<Rightarrow> int \<Rightarrow> string" where
  "fec_label K c =
     (if c = FEC_1_2 K then ''FEC_1_2''
      else if c = FEC_2_3 K then ''FEC_2_3''
      else if c = FEC_3_4 K then ''FEC_3_4''
      else if c = FEC_4_5 K then ''FEC_4_5''
      else if c = FEC_5_6 K then ''FEC_5_6''
      else if c = FEC_6_7 K then ''FEC_6_7''
      else if c = FEC_7_8 K then ''FEC_7_8''
      else if c = FEC_8_9 K then ''FEC_8_9''
      else if c = FEC_3_5 K then ''FEC_3_5''
      else if c = FEC_9_10 K then ''FEC_9_10''
      else if c = FEC_2_5 K then ''FEC_2_5''
      else ''FEC_AUTO'')"

text \<open>Lines 383 to 397.\<close>

definition modulation_label :: "frontend_h \<Rightarrow> int \<Rightarrow> string" where
  "modulation_label K c =
     (if c = PSK_8 K then ''8PSK''
      else if c = APSK_16 K then ''16APSK''
      else if c = APSK_32 K then ''32APSK''
      else ''QPSK'')"

text \<open>Lines 401 to 412.\<close>

definition rolloff_label :: "frontend_h \<Rightarrow> int \<Rightarrow> string" where
  "rolloff_label K c =
     (if c = ROLLOFF_20 K then ''ROLLOFF_20''
      else if c = ROLLOFF_25 K then ''ROLLOFF_25''
      else ''ROLLOFF_35'')"

section \<open>Result formatter: the output line\<close>

text \<open>
  One driver record, as the fourteen variables that the \<^verbatim>\<open>sscanf\<close> of line 271 fills.
  The two \<^verbatim>\<open>%u\<close> fields are \<^verbatim>\<open>uint32_t\<close>, the twelve \<^verbatim>\<open>%d\<close> fields are \<^verbatim>\<open>int\<close>.
\<close>

record candidate =
  index :: int
  frequency :: u32
  symbol_rate :: u32
  delivery_system :: int
  inversion :: int
  pilot :: int
  fec_inner :: int
  modulation :: int
  rolloff :: int
  pls_mode :: int
  is_id :: int
  pls_code :: int
  t2mi_plp_id :: int
  t2mi_pid :: int

text \<open>What \<^verbatim>\<open>printf\<close> writes for \<^verbatim>\<open>%u\<close> and \<^verbatim>\<open>%d\<close>: decimal digits, a minus sign first if negative.\<close>

function dec :: "nat \<Rightarrow> string" where
  "dec n = (if n < 10 then [''0123456789'' ! n]
            else dec (n div 10) @ [''0123456789'' ! (n mod 10)])"
  by pat_completeness auto
termination
  by (relation "measure (\<lambda>n. n)") auto

declare dec.simps [simp del]

definition dec_int :: "int \<Rightarrow> string" where
  "dec_int i = (if i < 0 then CHR ''-'' # dec (nat (- i)) else dec (nat i))"

text \<open>
  Lines 291 to 429: the line is built field by field with \<^verbatim>\<open>sprintf\<close>, each field after a
  space. The longest possible line has fewer than 200 characters, so it fits the buffer.
\<close>

definition format_line :: "frontend_h \<Rightarrow> config \<Rightarrow> candidate \<Rightarrow> string" where
  "format_line K cfg c =
     ''OK''
     @ '' '' @ (if vertical cfg then ''VERTICAL'' else ''HORIZONTAL'')
     @ '' '' @ dec (unat (output_frequency cfg (frequency c)))
     @ '' '' @ dec (unat (round_to_1000 (symbol_rate c)))
     @ '' '' @ delivery_system_label K (delivery_system c)
     @ '' '' @ inversion_label K (inversion c)
     @ '' '' @ pilot_label K (pilot c)
     @ '' '' @ fec_label K (fec_inner c)
     @ '' '' @ modulation_label K (modulation c)
     @ '' '' @ rolloff_label K (rolloff c)
     @ '' '' @ dec_int (pls_mode c)
     @ '' '' @ dec_int (is_id c)
     @ '' '' @ dec_int (pls_code c)
     @ (if t2mi_plp_id c \<noteq> - 1
        then '' '' @ dec_int (t2mi_plp_id c) @ '' '' @ dec_int (t2mi_pid c)
        else [])
     @ [CHR 0x0A]"

section \<open>Outcomes of running C code\<close>

text \<open>
  A C function either returns, or does something the language leaves undefined, or never
  returns. The loops that may run forever take a bound on their number of iterations
  (fuel); running out of it is the third outcome.
\<close>

datatype undefined_behaviour =
    Uninit_pointer       \<comment> \<open>store through a pointer that was never set\<close>
  | Uninit_value         \<comment> \<open>use of a variable that was never assigned\<close>
  | Out_of_bounds        \<comment> \<open>array element outside the array\<close>
  | Conversion_range     \<comment> \<open>\<^verbatim>\<open>sscanf\<close> conversion whose value does not fit the object\<close>
  | Overrun              \<comment> \<open>more bytes moved than the buffer has\<close>

datatype 'a outcome = Done 'a | Undef undefined_behaviour | Out_of_fuel

fun obind :: "'a outcome \<Rightarrow> ('a \<Rightarrow> 'b outcome) \<Rightarrow> 'b outcome" where
  "obind (Done x) f = f x"
| "obind (Undef u) f = Undef u"
| "obind Out_of_fuel f = Out_of_fuel"

section \<open>The part of \<^verbatim>\<open>sscanf\<close> that the program uses\<close>

text \<open>
  Formats are sequences of directives: white space (skips any white space of the input,
  also none), an ordinary character (must be next in the input), and the conversions
  \<^verbatim>\<open>%d\<close> and \<^verbatim>\<open>%u\<close>. Both conversions skip white space, then take an optional sign and a
  non-empty run of decimal digits. Scanning stops at the first directive that fails.
  The model returns the converted values in order; the C return value is their number
  (or \<^verbatim>\<open>EOF\<close> when the input ends before the first conversion). Variables of conversions
  that were not reached keep what they held.

  What a conversion stores follows the rules of \<^verbatim>\<open>strtol\<close> and \<^verbatim>\<open>strtoul\<close>. \<^verbatim>\<open>%d\<close> stores the
  number read when it is in the range of a 32-bit \<^verbatim>\<open>int\<close>. \<^verbatim>\<open>%u\<close> takes a sign as well: a
  number whose magnitude is in the range of a 32-bit \<^verbatim>\<open>unsigned\<close> is stored, negated in that
  type when it has a minus sign, so \<^verbatim>\<open>-1\<close> stores 4294967295. ISO C leaves the behaviour
  undefined when the result cannot be represented in the object; that is every number
  beyond these ranges.
\<close>

datatype directive = Space | Literal char | Conv_d | Conv_u

definition isspace :: "char \<Rightarrow> bool" where
  "isspace c \<longleftrightarrow> c = CHR '' '' \<or> c = CHR 0x09 \<or> c = CHR 0x0A \<or> c = CHR 0x0B
                 \<or> c = CHR 0x0C \<or> c = CHR 0x0D"

definition isdigit :: "char \<Rightarrow> bool" where
  "isdigit c \<longleftrightarrow> c \<in> set ''0123456789''"

definition digit_value :: "char \<Rightarrow> nat" where
  "digit_value c = (of_char c :: nat) - 48"

definition scan_digits :: "string \<Rightarrow> (nat \<times> string) option" where
  "scan_digits s =
     (let ds = takeWhile isdigit s in
      if ds = [] then None
      else Some (foldl (\<lambda>a c. 10 * a + digit_value c) 0 ds, dropWhile isdigit s))"

definition scan_int :: "string \<Rightarrow> (int \<times> string) option" where
  "scan_int s =
     (case dropWhile isspace s of
        [] \<Rightarrow> None
      | c # r \<Rightarrow>
          if c = CHR ''-'' then map_option (\<lambda>(n, t). (- int n, t)) (scan_digits r)
          else if c = CHR ''+'' then map_option (\<lambda>(n, t). (int n, t)) (scan_digits r)
          else map_option (\<lambda>(n, t). (int n, t)) (scan_digits (c # r)))"

definition stored :: "directive \<Rightarrow> int \<Rightarrow> int option" where
  "stored d v =
     (if d = Conv_u then
        (if - 4294967296 < v \<and> v < 4294967296 then Some (v mod 4294967296) else None)
      else
        (if - 2147483648 \<le> v \<and> v < 2147483648 then Some v else None))"

fun sscanf :: "directive list \<Rightarrow> string \<Rightarrow> int list outcome" where
  "sscanf [] s = Done []"
| "sscanf (Space # ds) s = sscanf ds (dropWhile isspace s)"
| "sscanf (Literal c # ds) s =
     (case s of [] \<Rightarrow> Done [] | x # r \<Rightarrow> if x = c then sscanf ds r else Done [])"
| "sscanf (d # ds) s =
     (case scan_int s of
        None \<Rightarrow> Done []
      | Some (v, r) \<Rightarrow>
          (case stored d v of
             None \<Rightarrow> Undef Conversion_range
           | Some w \<Rightarrow> obind (sscanf ds r) (\<lambda>vs. Done (w # vs))))"

text \<open>The string a \<^verbatim>\<open>char\<close> buffer holds for the C library: the bytes before the first NUL.\<close>

definition c_str :: "string \<Rightarrow> string" where
  "c_str buf = takeWhile (\<lambda>c. c \<noteq> CHR 0x00) buf"

section \<open>Device resolver\<close>

text \<open>
  \<^verbatim>\<open>nim_sockets\<close>, lines 436 to 480. The topology file is the list of the lines that
  \<^verbatim>\<open>getline\<close> returns, or \<open>None\<close> when \<^verbatim>\<open>fopen\<close> fails. The array \<^verbatim>\<open>ids\<close> is a list of four
  numbers. The pointer \<^verbatim>\<open>id\<close> (\<open>idp\<close> below) is declared without a value; once set it holds the address
  of \<^verbatim>\<open>ids[k]\<close>. Forming that address is defined for \<open>0 \<le> k \<le> 4\<close> (4 is the address just
  past the array), storing through it for \<open>k < 4\<close>.
\<close>

datatype pointer = Unset | Elem nat

text \<open>
  \<^verbatim>\<open>strstr(line, p) == line\<close> holds exactly when the string \<^verbatim>\<open>line\<close> begins with \<^verbatim>\<open>p\<close>.
\<close>

definition begins_with :: "string \<Rightarrow> string \<Rightarrow> bool" where
  "begins_with p line \<longleftrightarrow> take (length p) line = p"

text \<open>The formats \<^verbatim>\<open>"NIM Socket %d"\<close> and \<^verbatim>\<open>"\tFrontend_Device: %d"\<close>.\<close>

definition fmt_socket :: "directive list" where
  "fmt_socket = map Literal ''NIM'' @ [Space] @ map Literal ''Socket'' @ [Space, Conv_d]"

definition fmt_device :: "directive list" where
  "fmt_device = [Space] @ map Literal ''Frontend_Device:'' @ [Space, Conv_d]"

text \<open>
  One turn of the \<^verbatim>\<open>while\<close> loop, lines 452 to 463. \<^verbatim>\<open>val\<close> is declared in the loop body
  without a value, so it has one only if \<^verbatim>\<open>sscanf\<close> converted a number.
\<close>

definition nim_line :: "string \<Rightarrow> int list \<times> pointer \<Rightarrow> (int list \<times> pointer) outcome" where
  "nim_line line st =
     (case st of (ids, idp) \<Rightarrow>
        if begins_with ''NIM Socket'' (c_str line) then
          obind (sscanf fmt_socket (c_str line)) (\<lambda>vs.
            case vs of
              [] \<Rightarrow> Undef Uninit_value
            | val # _ \<Rightarrow>
                if 0 \<le> val \<and> val \<le> 4 then Done (ids, Elem (nat val))
                else Undef Out_of_bounds)
        else if begins_with (CHR 0x09 # ''Frontend_Device'') (c_str line) then
          obind (sscanf fmt_device (c_str line)) (\<lambda>vs.
            case vs of
              [] \<Rightarrow> Undef Uninit_value
            | val # _ \<Rightarrow>
                (case idp of
                   Unset \<Rightarrow> Undef Uninit_pointer
                 | Elem k \<Rightarrow>
                     if k < 4 then Done (ids[k := val], idp) else Undef Out_of_bounds))
        else Done (ids, idp))"

text \<open>The \<^verbatim>\<open>while\<close> loop, lines 450 to 464: one turn for each line of the file.\<close>

fun nim_lines :: "string list \<Rightarrow> int list \<times> pointer \<Rightarrow> (int list \<times> pointer) outcome" where
  "nim_lines [] st = Done st"
| "nim_lines (line # rest) st = obind (nim_line line st) (nim_lines rest)"

text \<open>
  The \<^verbatim>\<open>for\<close> loop, lines 470 to 477: the first element of \<^verbatim>\<open>ids\<close> that equals \<^verbatim>\<open>slot\<close> is
  copied to \<^verbatim>\<open>fe_id\<close>, which is \<open>- 1\<close> before.
\<close>

fun find_slot :: "int \<Rightarrow> int list \<Rightarrow> int \<Rightarrow> int" where
  "find_slot sl [] fe_id = fe_id"
| "find_slot sl (x # xs) fe_id = (if x = sl then x else find_slot sl xs fe_id)"

definition nim_sockets :: "int \<Rightarrow> string list option \<Rightarrow> int outcome" where
  "nim_sockets sl topology =
     (case topology of
        None \<Rightarrow> Done (- 1)
      | Some lines \<Rightarrow>
          obind (nim_lines lines ([- 1, - 1, - 1, - 1], Unset)) (\<lambda>(ids, idp).
            Done (find_slot sl ids (- 1))))"

text \<open>
  The table \<^verbatim>\<open>ids\<close> when the \<^verbatim>\<open>while\<close> loop is left: what the topology records for each
  of the four sockets.
\<close>

definition socket_table :: "string list \<Rightarrow> int list outcome" where
  "socket_table lines =
     obind (nim_lines lines ([- 1, - 1, - 1, - 1], Unset)) (\<lambda>(ids, idp). Done ids)"

text \<open>
  The topology of the specification's example: socket 0 without a device line, socket 2
  with frontend 1.
\<close>

definition example_topology :: "string list" where
  "example_topology =
     [''NIM Socket 0:'' @ [CHR 0x0A],
      CHR 0x09 # ''Type: DVB-S2'' @ [CHR 0x0A],
      ''NIM Socket 2:'' @ [CHR 0x0A],
      CHR 0x09 # ''Type: DVB-S2'' @ [CHR 0x0A],
      CHR 0x09 # ''Frontend_Device: 1'' @ [CHR 0x0A]]"

section \<open>The environment of a run\<close>

text \<open>
  What the program cannot decide itself: whether \<^verbatim>\<open>access\<close> and \<^verbatim>\<open>open\<close> succeed, what each
  \<^verbatim>\<open>read\<close> and \<^verbatim>\<open>write\<close> system call returns, and whether \<^verbatim>\<open>signal_status\<close> holds \<^verbatim>\<open>SIGINT\<close> at
  the moment the program looks at it. The answers are indexed by the number of earlier
  calls of the same kind in the run. \<^verbatim>\<open>read\<close> is told how many bytes are asked for, \<^verbatim>\<open>write\<close>
  the bytes offered. \<open>bufsiz\<close> is the macro \<^verbatim>\<open>BUFSIZ\<close> of the C library (at least 256).
\<close>

datatype read_result = Rd_eintr | Rd_error | Rd_moved string
  \<comment> \<open>\<open>- 1\<close> with \<^verbatim>\<open>errno == EINTR\<close>; \<open>- 1\<close> with another \<^verbatim>\<open>errno\<close>; the bytes stored, their number returned\<close>

datatype write_result = Wr_eintr | Wr_error | Wr_moved nat

record env =
  access_ok :: "string \<Rightarrow> bool"
  open_ok :: "nat \<Rightarrow> bool"
  read_ret :: "nat \<Rightarrow> nat \<Rightarrow> read_result"
  write_ret :: "nat \<Rightarrow> string \<Rightarrow> write_result"
  sigint :: "nat \<Rightarrow> bool"
  bufsiz :: nat

text \<open>
  The run so far: how many calls of each kind were made, and the log of what the scan
  session did, oldest first. A \<open>Bs_write\<close> entry holds the file name, the message and
  the value returned; a \<open>Bs_read\<close> entry the file name, the value returned and the bytes
  received; \<open>Print\<close> the line written to standard output.
\<close>

datatype event =
    Bs_write string string int
  | Bs_read string int string
  | Usleep nat
  | Print string

record io_state =
  opens :: nat
  reads :: nat
  writes :: nat
  looks :: nat
  trace :: "event list"

definition emit :: "event \<Rightarrow> io_state \<Rightarrow> io_state" where
  "emit ev s = s\<lparr>trace := trace s @ [ev]\<rparr>"

definition start_state :: io_state where
  "start_state = \<lparr>opens = 0, reads = 0, writes = 0, looks = 0, trace = []\<rparr>"

section \<open>DeviceFile I/O\<close>

text \<open>
  \<^verbatim>\<open>bs_read\<close>, lines 142 to 169. \<open>read_loop\<close> is the \<^verbatim>\<open>while (todo)\<close> loop with the
  \<^verbatim>\<open>do ... while (rc < 0 && errno == EINTR)\<close> loop inside it: an interrupted call leaves
  \<^verbatim>\<open>todo\<close> and \<^verbatim>\<open>buf\<close> as they are, so repeating the inner loop is the same as going round
  the outer one. Every system call takes one unit of fuel. \<open>k\<close> counts the \<^verbatim>\<open>read\<close> calls
  of the run, \<open>got\<close> is what the buffer has received. The kernel returns at most the
  number of bytes asked for; more would be written past the buffer.
\<close>

fun read_loop ::
  "nat \<Rightarrow> env \<Rightarrow> nat \<Rightarrow> nat \<Rightarrow> string \<Rightarrow> int \<Rightarrow> (nat \<times> nat \<times> string \<times> int) outcome" where
  "read_loop 0 e k todo got rc =
     (if todo = 0 then Done (k, todo, got, rc) else Out_of_fuel)"
| "read_loop (Suc f) e k todo got rc =
     (if todo = 0 then Done (k, todo, got, rc)
      else case read_ret e k todo of
        Rd_eintr \<Rightarrow> read_loop f e (Suc k) todo got (- 1)
      | Rd_error \<Rightarrow> Done (Suc k, todo, got, - 1)
      | Rd_moved d \<Rightarrow>
          if d = [] then Done (Suc k, todo, got, 0)
          else if todo < length d then Undef Overrun
          else read_loop f e (Suc k) (todo - length d) (got @ d) (int (length d)))"

definition bs_read ::
  "nat \<Rightarrow> env \<Rightarrow> io_state \<Rightarrow> string \<Rightarrow> nat \<Rightarrow> (io_state \<times> int \<times> string) outcome" where
  "bs_read f e s filename count =
     (if \<not> open_ok e (opens s) then
        Done (emit (Bs_read filename (- 1) []) (s\<lparr>opens := Suc (opens s)\<rparr>), - 1, [])
      else
        obind (read_loop f e (reads s) count [] 0) (\<lambda>(k, todo, got, rc).
          let ret = (if count - todo \<noteq> 0 then int (count - todo) else rc) in
          Done (emit (Bs_read filename ret got) (s\<lparr>opens := Suc (opens s), reads := k\<rparr>),
                ret, got)))"

text \<open>
  \<^verbatim>\<open>bs_write\<close>, lines 171 to 198, in the same way. \<open>buf\<close> is the part of the message not
  yet written, so \<^verbatim>\<open>todo\<close> is its length and \<^verbatim>\<open>count\<close> the length of the whole message.
\<close>

fun write_loop ::
  "nat \<Rightarrow> env \<Rightarrow> nat \<Rightarrow> string \<Rightarrow> int \<Rightarrow> (nat \<times> string \<times> int) outcome" where
  "write_loop 0 e k buf rc = (if buf = [] then Done (k, buf, rc) else Out_of_fuel)"
| "write_loop (Suc f) e k buf rc =
     (if buf = [] then Done (k, buf, rc)
      else case write_ret e k buf of
        Wr_eintr \<Rightarrow> write_loop f e (Suc k) buf (- 1)
      | Wr_error \<Rightarrow> Done (Suc k, buf, - 1)
      | Wr_moved m \<Rightarrow>
          if m = 0 then Done (Suc k, buf, 0)
          else if length buf < m then Undef Overrun
          else write_loop f e (Suc k) (drop m buf) (int m))"

definition bs_write ::
  "nat \<Rightarrow> env \<Rightarrow> io_state \<Rightarrow> string \<Rightarrow> string \<Rightarrow> (io_state \<times> int) outcome" where
  "bs_write f e s filename msg =
     (if \<not> open_ok e (opens s) then
        Done (emit (Bs_write filename msg (- 1)) (s\<lparr>opens := Suc (opens s)\<rparr>), - 1)
      else
        obind (write_loop f e (writes s) msg 0) (\<lambda>(k, buf, rc).
          let ret = (if length msg - length buf \<noteq> 0 then int (length msg - length buf) else rc) in
          Done (emit (Bs_write filename msg ret) (s\<lparr>opens := Suc (opens s), writes := k\<rparr>),
                ret)))"

section \<open>Candidate reader\<close>

text \<open>The format of line 271: \<^verbatim>\<open>"%d%u%u%d%d%d%d%d%d%d%d%d%d%d"\<close>.\<close>

definition fmt_candidate :: "directive list" where
  "fmt_candidate =
     [Conv_d, Conv_u, Conv_u, Conv_d, Conv_d, Conv_d, Conv_d, Conv_d, Conv_d, Conv_d, Conv_d,
      Conv_d, Conv_d, Conv_d]"

text \<open>The fourteen variables after a scan that converted all fourteen fields.\<close>

definition candidate_of :: "int list \<Rightarrow> candidate" where
  "candidate_of vs =
     \<lparr>index = vs ! 0, frequency = word_of_int (vs ! 1), symbol_rate = word_of_int (vs ! 2),
      delivery_system = vs ! 3, inversion = vs ! 4, pilot = vs ! 5, fec_inner = vs ! 6,
      modulation = vs ! 7, rolloff = vs ! 8, pls_mode = vs ! 9, is_id = vs ! 10,
      pls_code = vs ! 11, t2mi_plp_id = vs ! 12, t2mi_pid = vs ! 13\<rparr>"

text \<open>
  Lines 271 to 289: the response is accepted when \<^verbatim>\<open>sscanf\<close> returns 14 and the index it
  read is the loop counter \<^verbatim>\<open>i\<close>; otherwise the loop goes on with the next index.
\<close>

definition parse_candidate :: "string \<Rightarrow> int \<Rightarrow> candidate option outcome" where
  "parse_candidate response i =
     obind (sscanf fmt_candidate response) (\<lambda>vs.
       if length vs \<noteq> 14 then Done None
       else if i \<noteq> index (candidate_of vs) then Done None
       else Done (Some (candidate_of vs)))"

text \<open>
  Lines 261 to 289: the index is written to the info file, the response is read, ended
  with a NUL at the number of bytes read, and parsed.
\<close>

definition read_candidate ::
  "nat \<Rightarrow> env \<Rightarrow> io_state \<Rightarrow> string \<Rightarrow> int \<Rightarrow> (io_state \<times> candidate option) outcome" where
  "read_candidate f e s bs_info i =
     obind (bs_write f e s bs_info (dec_int i)) (\<lambda>(s1, ret).
       if ret < 0 then Done (s1, None)
       else obind (bs_read f e s1 bs_info (bufsiz e - 1)) (\<lambda>(s2, ret, got).
         if ret < 0 then Done (s2, None)
         else obind (parse_candidate (c_str got) i) (\<lambda>r. Done (s2, r))))"

section \<open>Scan session\<close>

text \<open>
  \<^verbatim>\<open>blindscan\<close>, lines 200 to 434. The three variables that the \<^verbatim>\<open>sscanf\<close> of line 252
  fills are declared without a value; \<open>None\<close> stands for that. The fuel given to
  \<open>blindscan\<close> bounds each of its loops separately.
\<close>

record locals =
  status :: "int option"
  num_info :: "int option"
  progress :: "int option"

definition fmt_status :: "directive list" where
  "fmt_status = [Conv_d, Conv_d, Conv_d]"

definition assign :: "int list \<Rightarrow> locals \<Rightarrow> locals" where
  "assign vs v =
     \<lparr>status = (if 1 \<le> length vs then Some (vs ! 0) else status v),
      num_info = (if 2 \<le> length vs then Some (vs ! 1) else num_info v),
      progress = (if 3 \<le> length vs then Some (vs ! 2) else progress v)\<rparr>"

text \<open>
  How the polling loop of lines 238 to 257 is left. The loop may run forever, so \<open>poll\<close>
  takes fuel: every turn of the loop uses one unit, and the transfer made in a turn may
  use as many system calls as the turn had fuel.
\<close>

datatype poll_exit =
    Poll_cancelled   \<comment> \<open>\<^verbatim>\<open>return\<close> of line 244\<close>
  | Poll_failed      \<comment> \<open>\<^verbatim>\<open>return\<close> of line 249\<close>
  | Poll_break       \<comment> \<open>\<^verbatim>\<open>break\<close> of line 254\<close>

fun poll ::
  "nat \<Rightarrow> env \<Rightarrow> string \<Rightarrow> io_state \<Rightarrow> locals \<Rightarrow> (io_state \<times> locals \<times> poll_exit) outcome" where
  "poll 0 e bs_ctrl s v = Out_of_fuel"
| "poll (Suc f) e bs_ctrl s v =
     (if sigint e (looks s) then
        obind (bs_write (Suc f) e (s\<lparr>looks := Suc (looks s)\<rparr>) bs_ctrl ''0 0 0 0 0'')
          (\<lambda>(s1, ret). Done (s1, v, Poll_cancelled))
      else
        obind (bs_read (Suc f) e (s\<lparr>looks := Suc (looks s)\<rparr>) bs_ctrl (bufsiz e - 1))
          (\<lambda>(s1, ret, got).
            if ret < 0 then Done (s1, v, Poll_failed)
            else obind (sscanf fmt_status (c_str got)) (\<lambda>vs.
              case status (assign vs v) of
                None \<Rightarrow> Undef Uninit_value
              | Some st \<Rightarrow>
                  if st = 0 then Done (s1, assign vs v, Poll_break)
                  else poll f e bs_ctrl (emit (Usleep 100000) s1) (assign vs v))))"

text \<open>
  The body of the candidate loop, lines 261 to 432: a record that was read and accepted
  is formatted and printed.
\<close>

definition candidate_body ::
  "nat \<Rightarrow> env \<Rightarrow> frontend_h \<Rightarrow> config \<Rightarrow> string \<Rightarrow> int \<Rightarrow> io_state \<Rightarrow> io_state outcome" where
  "candidate_body f e K cfg bs_info i s =
     obind (read_candidate f e s bs_info i) (\<lambda>(s1, r).
       case r of
         None \<Rightarrow> Done s1
       | Some c \<Rightarrow> Done (emit (Print (format_line K cfg c)) s1))"

text \<open>
  The candidate loop, line 259. \<^verbatim>\<open>signal_status\<close> is looked at only when \<^verbatim>\<open>i < num_info\<close>
  holds. The loop ends after at most \<^verbatim>\<open>num_info\<close> turns.
\<close>

function candidate_loop ::
  "nat \<Rightarrow> env \<Rightarrow> frontend_h \<Rightarrow> config \<Rightarrow> string \<Rightarrow> int \<Rightarrow> int \<Rightarrow> io_state \<Rightarrow> io_state outcome" where
  "candidate_loop f e K cfg bs_info n i s =
     (if i < n then
        (if sigint e (looks s) then Done (s\<lparr>looks := Suc (looks s)\<rparr>)
         else obind (candidate_body f e K cfg bs_info i (s\<lparr>looks := Suc (looks s)\<rparr>))
                (candidate_loop f e K cfg bs_info n (i + 1)))
      else Done s)"
  by pat_completeness auto
termination
  by (relation "measure (\<lambda>(f, e, K, cfg, bs_info, n, i, s). nat (n - i))") auto

declare candidate_loop.simps [simp del]

text \<open>Which statement ends \<^verbatim>\<open>blindscan\<close>.\<close>

datatype ending =
    No_ctrl          \<comment> \<open>line 225\<close>
  | No_info          \<comment> \<open>line 229\<close>
  | Request_failed   \<comment> \<open>line 236\<close>
  | Cancelled        \<comment> \<open>line 244\<close>
  | Read_failed      \<comment> \<open>line 249\<close>
  | Finished         \<comment> \<open>the end of the function, line 434\<close>

definition bs_ctrl_path :: "int \<Rightarrow> string" where
  "bs_ctrl_path fe_id = ''/proc/stb/frontend/'' @ dec_int fe_id @ ''/bs_ctrl''"

definition bs_info_path :: "int \<Rightarrow> string" where
  "bs_info_path fe_id = ''/proc/stb/frontend/'' @ dec_int fe_id @ ''/bs_info''"

definition request :: "config \<Rightarrow> string" where
  "request cfg =
     ''1 '' @ dec (unat (start_frequency_mhz cfg)) @ '' '' @ dec (unat (stop_frequency_mhz cfg))
     @ '' '' @ dec (unat (symbolrate_min_mhz cfg)) @ '' '' @ dec (unat (symbolrate_max_mhz cfg))"

definition blindscan ::
  "nat \<Rightarrow> env \<Rightarrow> frontend_h \<Rightarrow> config \<Rightarrow> int \<Rightarrow> (io_state \<times> ending) outcome" where
  "blindscan f e K cfg fe_id =
     (if \<not> access_ok e (bs_ctrl_path fe_id) then Done (start_state, No_ctrl)
      else if \<not> access_ok e (bs_info_path fe_id) then Done (start_state, No_info)
      else
        obind (bs_write f e start_state (bs_ctrl_path fe_id) (request cfg)) (\<lambda>(s1, ret).
          if ret < 0 then Done (s1, Request_failed)
          else
            obind (poll f e (bs_ctrl_path fe_id) s1
                     \<lparr>status = None, num_info = None, progress = None\<rparr>) (\<lambda>(s2, v, x).
              case x of
                Poll_cancelled \<Rightarrow> Done (s2, Cancelled)
              | Poll_failed \<Rightarrow> Done (s2, Read_failed)
              | Poll_break \<Rightarrow>
                  (case num_info v of
                     None \<Rightarrow> Undef Uninit_value
                   | Some n \<Rightarrow>
                       obind (candidate_loop f e K cfg (bs_info_path fe_id) n 0 s2)
                         (\<lambda>s3. Done (s3, Finished))))))"

section \<open>Concrete inputs and auxiliary notions\<close>

text \<open>The rounding of lines 295 and 305 on natural numbers, with the wrap-around written out.\<close>

definition round_nat :: "nat \<Rightarrow> nat" where
  "round_nat n = ((n + 500) mod 4294967296) div 1000 * 1000"

text \<open>The configuration of a run without options: the initial values of lines 18 to 26.\<close>

definition default_config :: config where
  "default_config =
     \<lparr>start_frequency_mhz = 950, stop_frequency_mhz = 1950, symbolrate_min_mhz = 2,
      symbolrate_max_mhz = 45, vertical = False, cband = False, high = False, slot = 0,
      i2c = 0\<rparr>"

text \<open>A topology file whose first line is a device line.\<close>

definition headless_topology :: "string list" where
  "headless_topology =
     [CHR 0x09 # ''Frontend_Device: 0'' @ [CHR 0x0A],
      ''NIM Socket 0:'' @ [CHR 0x0A]]"

text \<open>
  An environment without surprises: every \<^verbatim>\<open>access\<close> and \<^verbatim>\<open>open\<close> succeeds, every \<^verbatim>\<open>write\<close> takes
  all bytes offered, every \<^verbatim>\<open>read\<close> reports the end of the file, no signal arrives. The other
  environments below change single answers of it; \<open>script\<close> gives the answers of the first
  calls as a list.
\<close>

definition script :: "'a list \<Rightarrow> 'a \<Rightarrow> nat \<Rightarrow> 'a" where
  "script xs d k = (if k < length xs then xs ! k else d)"

definition plain_env :: env where
  "plain_env =
     \<lparr>access_ok = (\<lambda>p. True), open_ok = (\<lambda>k. True), read_ret = (\<lambda>k n. Rd_moved []),
      write_ret = (\<lambda>k buf. Wr_moved (length buf)), sigint = (\<lambda>k. False), bufsiz = 8192\<rparr>"

text \<open>A device on which \<^verbatim>\<open>write\<close> accepts no byte.\<close>

definition stuck_env :: env where
  "stuck_env = plain_env\<lparr>write_ret := (\<lambda>k buf. Wr_moved 0)\<rparr>"

text \<open>
  A control file whose status arrives in two pieces, with an interrupted call before each
  piece, and a write that takes the message in two parts, with an interrupted call before
  each part.
\<close>

definition interrupted_env :: env where
  "interrupted_env =
     plain_env\<lparr>read_ret := (\<lambda>k n.
                  script [Rd_eintr, Rd_moved ''0 2 '', Rd_eintr, Rd_moved ''100''] (Rd_moved []) k),
               write_ret := (\<lambda>k buf.
                  script [Wr_eintr, Wr_moved 4, Wr_eintr] (Wr_moved (length buf)) k)\<rparr>"

text \<open>
  A device that moves four bytes and then fails, and a device file that cannot be opened.
\<close>

definition broken_env :: env where
  "broken_env =
     plain_env\<lparr>read_ret := (\<lambda>k n. script [Rd_moved ''0 2 ''] Rd_error k),
               write_ret := (\<lambda>k buf. script [Wr_moved 4] Wr_error k)\<rparr>"

definition closed_env :: env where
  "closed_env = plain_env\<lparr>open_ok := (\<lambda>k. False)\<rparr>"




text \<open>
  A control file that reports an active scan with two candidates and then, on the next
  tick, the single number 0.
\<close>

definition stale_env :: env where
  "stale_env =
     plain_env\<lparr>read_ret := (\<lambda>k n.
       script [Rd_moved ''1 2 10'', Rd_moved [], Rd_moved ''0'', Rd_moved []] (Rd_moved []) k)\<rparr>"

text \<open>A control file that answers with a word, then reports the end of the scan.\<close>

definition garbled_env :: env where
  "garbled_env =
     plain_env\<lparr>read_ret := (\<lambda>k n.
       script [Rd_moved ''busy'', Rd_moved [], Rd_moved ''0 0 100'', Rd_moved []] (Rd_moved []) k)\<rparr>"





text \<open>
  The environment of the run in which the \<^verbatim>\<open>read\<close> call number \<open>j\<close> does not take place: the
  calls after it are answered as the next ones were. The same for \<^verbatim>\<open>write\<close>.
\<close>

definition without_read :: "nat \<Rightarrow> env \<Rightarrow> env" where
  "without_read j e = e\<lparr>read_ret := (\<lambda>k. read_ret e (if k < j then k else Suc k))\<rparr>"

definition without_write :: "nat \<Rightarrow> env \<Rightarrow> env" where
  "without_write j e = e\<lparr>write_ret := (\<lambda>k. write_ret e (if k < j then k else Suc k))\<rparr>"












text \<open>
  What the \<^verbatim>\<open>read\<close> calls number \<open>k\<close> to \<open>k + m - 1\<close> store when \<open>todo\<close> bytes are asked for at
  the first of them and every call is asked for the bytes then still to do; and how many
  bytes of \<open>buf\<close> the \<^verbatim>\<open>write\<close> calls number \<open>k\<close> to \<open>k + m - 1\<close> take when every call is
  offered the bytes not yet taken.
\<close>

fun delivered :: "env \<Rightarrow> nat \<Rightarrow> nat \<Rightarrow> nat \<Rightarrow> string" where
  "delivered e k 0 todo = []"
| "delivered e k (Suc m) todo =
     (case read_ret e k todo of
        Rd_moved d \<Rightarrow> d @ delivered e (Suc k) m (todo - length d)
      | _ \<Rightarrow> delivered e (Suc k) m todo)"

fun accepted :: "env \<Rightarrow> nat \<Rightarrow> nat \<Rightarrow> string \<Rightarrow> nat" where
  "accepted e k 0 buf = 0"
| "accepted e k (Suc m) buf =
     (case write_ret e k buf of
        Wr_moved n \<Rightarrow> n + accepted e (Suc k) m (drop n buf)
      | _ \<Rightarrow> accepted e (Suc k) m buf)"

section \<open>Rounding\<close>

lemma unat_round_to_1000: "unat (round_to_1000 x) = round_nat (unat x)"
proof -
  have a: "unat (x + 500) = (unat x + 500) mod 4294967296"
    by (simp add: unat_word_ariths)
  have b: "unat ((x + 500) div 1000) = unat (x + 500) div 1000"
    by (simp add: unat_div)
  have "unat (x + 500) < 4294967296"
    using unsigned_less [of "x + 500"] by simp
  then have c: "unat (x + 500) div 1000 * 1000 < 4294967296"
    by simp
  have "unat (((x + 500) div 1000) * 1000) = (unat ((x + 500) div 1000) * 1000) mod 4294967296"
    by (simp add: unat_word_ariths)
  with a b c show ?thesis
    by (simp add: round_to_1000_def round_nat_def)
qed

text \<open>Below the last multiple of 1000 that the type holds, nothing wraps.\<close>

lemma round_nat_low:
  assumes "n < 4294966500"
  shows "round_nat (round_nat n) = round_nat n"
proof -
  define q where "q = (n + 500) div 1000"
  from assms have "n + 500 < 4294967 * 1000" by simp
  then have q: "q < 4294967"
    unfolding q_def by (rule less_mult_imp_div_less)
  from assms have r: "round_nat n = q * 1000"
    by (simp add: round_nat_def q_def)
  from q have "q * 1000 + 500 < 4294967296" by simp
  then have "round_nat (q * 1000) = (q * 1000 + 500) div 1000 * 1000"
    by (simp add: round_nat_def)
  also have "(q * 1000 + 500) div 1000 = q" by simp
  finally show ?thesis using r by simp
qed

text \<open>The next 296 values round to 4294967000, and adding 500 to that wraps.\<close>

lemma round_nat_mid:
  assumes "4294966500 \<le> n" and "n \<le> 4294966795"
  shows "round_nat n = 4294967000"
proof -
  from assms have "(n + 500) mod 4294967296 = n + 500" by simp
  moreover from assms have "(n + 500) div 1000 = 4294967" by simp
  ultimately show ?thesis by (simp add: round_nat_def)
qed

text \<open>For the last 500 values the first addition wraps already.\<close>

lemma round_nat_high:
  assumes "4294966796 \<le> n" and "n < 4294967296"
  shows "round_nat n = 0"
proof -
  from assms have "(n + 500) mod 4294967296 = (n + 500 - 4294967296) mod 4294967296"
    by (simp add: le_mod_geq)
  also from assms have "\<dots> = n + 500 - 4294967296" by simp
  finally have "(n + 500) mod 4294967296 < 1000" using assms by simp
  then show ?thesis by (simp add: round_nat_def)
qed

lemma round_nat_idempotent_iff:
  assumes "n < 4294967296"
  shows "round_nat (round_nat n) = round_nat n \<longleftrightarrow> \<not> (4294966500 \<le> n \<and> n \<le> 4294966795)"
proof -
  consider (lo) "n < 4294966500" | (mid) "4294966500 \<le> n \<and> n \<le> 4294966795"
    | (hi) "4294966796 \<le> n"
    by linarith
  then show ?thesis
  proof cases
    case lo
    then show ?thesis by (simp add: round_nat_low)
  next
    case mid
    then have m: "round_nat n = 4294967000" by (simp add: round_nat_mid)
    have "round_nat 4294967000 = 0" by (simp add: round_nat_def)
    with m mid show ?thesis by simp
  next
    case hi
    then have "round_nat n = 0" using assms by (simp add: round_nat_high)
    moreover have "round_nat 0 = 0" by (simp add: round_nat_def)
    ultimately show ?thesis using hi by simp
  qed
qed

text \<open>
  Claim C9, as stated: rounding to 1000 is idempotent for every 32-bit value. It is not:
  4294966500 rounds to 4294967000, and 4294967000 + 500 wraps to 204, which rounds to 0.
\<close>

theorem round_to_1000_not_idempotent:
  "round_to_1000 (round_to_1000 4294966500) \<noteq> round_to_1000 4294966500"
  by (simp add: round_to_1000_def)

text \<open>
  Claim C9, amended: rounding to 1000 is idempotent at exactly the 32-bit values outside
  the range 4294966500 to 4294966795.
\<close>

theorem round_to_1000_idempotent_iff:
  "round_to_1000 (round_to_1000 f) = round_to_1000 f
     \<longleftrightarrow> \<not> (4294966500 \<le> f \<and> f \<le> 4294966795)"
proof -
  have lt: "unat f < 4294967296"
    using unsigned_less [of f] by simp
  have "round_to_1000 (round_to_1000 f) = round_to_1000 f
          \<longleftrightarrow> unat (round_to_1000 (round_to_1000 f)) = unat (round_to_1000 f)"
    by (simp add: word_unat_eq_iff)
  also have "\<dots> \<longleftrightarrow> \<not> (4294966500 \<le> unat f \<and> unat f \<le> 4294966795)"
    unfolding unat_round_to_1000 using lt by (rule round_nat_idempotent_iff)
  also have "\<dots> \<longleftrightarrow> \<not> (4294966500 \<le> f \<and> f \<le> 4294966795)"
    by (simp add: word_le_nat_alt)
  finally show ?thesis .
qed

theorem round_to_1000_idempotent_witness:
  "round_to_1000 (round_to_1000 1200300) = round_to_1000 1200300
   \<and> round_to_1000 1200300 = 1200000"
  using round_to_1000_idempotent_iff [of 1200300] by (simp add: round_to_1000_def)

section \<open>Band conversion\<close>

text \<open>Where the subtraction and the additions of lines 297 to 301 do not wrap.\<close>

lemma band_exact_c: "uint (5150000 - r :: u32) = 5150000 - uint r \<longleftrightarrow> r \<le> 5150000"
proof -
  have b: "0 \<le> uint r" "uint r < 4294967296"
    using uint_lt2p [of r] by simp_all
  have m: "uint (5150000 - r :: u32) = (5150000 - uint r) mod 4294967296"
    by (simp add: uint_word_ariths)
  have le: "r \<le> 5150000 \<longleftrightarrow> uint r \<le> 5150000"
    by (simp add: word_le_def)
  show ?thesis
  proof (cases "uint r \<le> 5150000")
    case True
    with b have "(5150000 - uint r) mod 4294967296 = 5150000 - uint r"
      by (intro mod_pos_pos_trivial) arith+
    with m le True show ?thesis by simp
  next
    case False
    have "0 \<le> (5150000 - uint r) mod 4294967296"
      by simp
    with False m le show ?thesis by simp
  qed
qed

lemma band_exact_add:
  assumes "uint (c :: u32) = C"
  shows "uint (r + c) = uint r + C \<longleftrightarrow> uint r + C < 4294967296"
proof -
  have b: "0 \<le> uint r" "uint r < 4294967296" "0 \<le> C"
    using uint_lt2p [of r] assms by auto
  have m: "uint (r + c) = (uint r + C) mod 4294967296"
    using assms by (simp add: uint_word_ariths)
  show ?thesis
  proof (cases "uint r + C < 4294967296")
    case True
    with b have "(uint r + C) mod 4294967296 = uint r + C"
      by (intro mod_pos_pos_trivial) simp_all
    with m True show ?thesis by simp
  next
    case False
    have "(uint r + C) mod 4294967296 < 4294967296"
      by simp
    with False m show ?thesis by simp
  qed
qed

lemma band_exact_hi: "uint (r + 10600000 :: u32) = uint r + 10600000 \<longleftrightarrow> r \<le> 4284367295"
  using band_exact_add [of 10600000 10600000 r] by (simp add: word_le_def) arith

lemma band_exact_lo: "uint (r + 9750000 :: u32) = uint r + 9750000 \<longleftrightarrow> r \<le> 4285217295"
  using band_exact_add [of 9750000 9750000 r] by (simp add: word_le_def) arith

text \<open>
  Claim C5, as stated: for every rounded frequency r, C-band yields 5150000 - r, Ku-band
  high r + 10600000 and Ku-band low r + 9750000. The frequency is a \<^verbatim>\<open>uint32_t\<close>, so this
  fails where the number leaves the type: the rounded frequency 6000000 gives 4294117296
  in C-band, not - 850000, and that is what is printed; 4290000000 gives 5632704 in
  Ku-band high and 4782704 in Ku-band low, not 4300600000 and 4299750000.
\<close>

theorem band_conversion_wraps:
  "round_to_1000 6000000 = 6000000
   \<and> uint (band_shift True False 6000000) = 4294117296
   \<and> 5150000 - uint (6000000 :: u32) = - 850000
   \<and> round_to_1000 4290000000 = 4290000000
   \<and> uint (band_shift False True 4290000000) = 5632704
   \<and> uint (4290000000 :: u32) + 10600000 = 4300600000
   \<and> uint (band_shift False False 4290000000) = 4782704
   \<and> uint (4290000000 :: u32) + 9750000 = 4299750000
   \<and> dec (unat (output_frequency (default_config\<lparr>cband := True\<rparr>) 6000000)) = ''4294117296''"
  by (simp add: band_shift_def round_to_1000_def output_frequency_def default_config_def dec.simps)

text \<open>
  Claim C5, amended: the band conversion depends on the rounded frequency, the C-band flag
  and the high-band flag only, and is computed in 32-bit unsigned arithmetic: C-band gives
  5150000 - r, Ku-band high r + 10600000 and Ku-band low r + 9750000, each modulo
  4294967296. The result is the number 5150000 - r exactly when r is at most 5150000, the
  number r + 10600000 exactly when r is at most 4284367295, and the number r + 9750000
  exactly when r is at most 4285217295. At r = 1200000 the results are 3950000, 11800000
  and 10950000. The frequency that is printed is this function of the rounded raw
  frequency.
\<close>

theorem band_conversion:
  "band_shift True hi r = 5150000 - r
   \<and> band_shift False True r = r + 10600000
   \<and> band_shift False False r = r + 9750000
   \<and> uint (band_shift True hi r) = (5150000 - uint r) mod 2 ^ 32
   \<and> uint (band_shift False True r) = (uint r + 10600000) mod 2 ^ 32
   \<and> uint (band_shift False False r) = (uint r + 9750000) mod 2 ^ 32
   \<and> (uint (band_shift True hi r) = 5150000 - uint r \<longleftrightarrow> r \<le> 5150000)
   \<and> (uint (band_shift False True r) = uint r + 10600000 \<longleftrightarrow> r \<le> 4284367295)
   \<and> (uint (band_shift False False r) = uint r + 9750000 \<longleftrightarrow> r \<le> 4285217295)
   \<and> band_shift True hi 1200000 = 3950000
   \<and> band_shift False True 1200000 = 11800000
   \<and> band_shift False False 1200000 = 10950000
   \<and> output_frequency cfg raw = band_shift (cband cfg) (high cfg) (round_to_1000 raw)"
proof -
  have s: "band_shift True hi r = 5150000 - r" "band_shift False True r = r + 10600000"
    "band_shift False False r = r + 9750000"
    by (simp_all add: band_shift_def)
  have m: "uint (band_shift True hi r) = (5150000 - uint r) mod 2 ^ 32"
    "uint (band_shift False True r) = (uint r + 10600000) mod 2 ^ 32"
    "uint (band_shift False False r) = (uint r + 9750000) mod 2 ^ 32"
    by (simp_all add: band_shift_def uint_word_ariths)
  have e: "uint (band_shift True hi r) = 5150000 - uint r \<longleftrightarrow> r \<le> 5150000"
    "uint (band_shift False True r) = uint r + 10600000 \<longleftrightarrow> r \<le> 4284367295"
    "uint (band_shift False False r) = uint r + 9750000 \<longleftrightarrow> r \<le> 4285217295"
    unfolding s by (rule band_exact_c band_exact_hi band_exact_lo)+
  have x: "band_shift True hi 1200000 = 3950000" "band_shift False True 1200000 = 11800000"
    "band_shift False False 1200000 = 10950000"
    by (simp_all add: band_shift_def)
  have o: "output_frequency cfg raw = band_shift (cband cfg) (high cfg) (round_to_1000 raw)"
    by (simp add: output_frequency_def)
  from s m e x o show ?thesis
    by blast
qed

theorem band_conversion_witness:
  "(1200000 :: u32) \<le> 5150000
   \<and> uint (band_shift True False 1200000) = 5150000 - uint (1200000 :: u32)
   \<and> uint (band_shift True True 1200000) = 3950000
   \<and> uint (band_shift False True 1200000) = 11800000
   \<and> uint (band_shift False False 1200000) = 10950000
   \<and> \<not> (6000000 :: u32) \<le> 5150000
   \<and> uint (band_shift True False 6000000) \<noteq> 5150000 - uint (6000000 :: u32)
   \<and> output_frequency (default_config\<lparr>high := True\<rparr>) 1200300 = 11800000"
  using band_conversion [of False 1200000 default_config 1200300]
    band_conversion [of True 1200000 "default_config\<lparr>high := True\<rparr>" 1200300]
    band_conversion [of False 6000000 default_config 1200300]
  by (simp add: default_config_def round_to_1000_def)

text \<open>
  Claim C10: with the C-band flag set, the result is 5150000 minus the rounded frequency
  whatever the high-band flag is, also when both flags are set; the high-band flag changes
  the result exactly when the C-band flag is unset.
\<close>

theorem cband_overrides_high:
  "(cband cfg \<and> high cfg \<longrightarrow> output_frequency cfg raw = 5150000 - round_to_1000 raw)
   \<and> band_shift True hi r = band_shift True hi' r
   \<and> (band_shift cb True r \<noteq> band_shift cb False r \<longleftrightarrow> \<not> cb)
   \<and> (output_frequency (cfg\<lparr>high := True\<rparr>) raw \<noteq> output_frequency (cfg\<lparr>high := False\<rparr>) raw
        \<longleftrightarrow> \<not> cband cfg)"
  by (simp add: band_shift_def output_frequency_def)

theorem cband_overrides_high_witness:
  "cband (default_config\<lparr>cband := True, high := True\<rparr>)
   \<and> high (default_config\<lparr>cband := True, high := True\<rparr>)
   \<and> output_frequency (default_config\<lparr>cband := True, high := True\<rparr>) 1200300 = 3950000
   \<and> output_frequency (default_config\<lparr>high := True\<rparr>) 1200300
       \<noteq> output_frequency (default_config\<lparr>high := False\<rparr>) 1200300"
  using cband_overrides_high [of "default_config\<lparr>cband := True, high := True\<rparr>" 1200300]
    cband_overrides_high [of default_config 1200300]
  by (simp add: default_config_def round_to_1000_def)

section \<open>Enumeration labels\<close>

lemma inversion_labels:
  assumes "distinct (inversion_cases K)"
  shows "map (inversion_label K) (inversion_cases K) = [''INVERSION_OFF'', ''INVERSION_ON'']"
    and "inversion_label K c = ''INVERSION_AUTO'' \<longleftrightarrow> c \<notin> set (inversion_cases K)"
    and "inj_on (inversion_label K) (set (inversion_cases K))"
  using assms by (auto simp: inversion_cases_def inversion_label_def inj_on_def)

lemma pilot_labels:
  assumes "distinct (pilot_cases K)"
  shows "map (pilot_label K) (pilot_cases K) = [''PILOT_ON'', ''PILOT_OFF'']"
    and "pilot_label K c = ''PILOT_AUTO'' \<longleftrightarrow> c \<notin> set (pilot_cases K)"
    and "inj_on (pilot_label K) (set (pilot_cases K))"
  using assms by (auto simp: pilot_cases_def pilot_label_def inj_on_def)

lemma modulation_labels:
  assumes "distinct (modulation_cases K)"
  shows "map (modulation_label K) (modulation_cases K) = [''8PSK'', ''16APSK'', ''32APSK'']"
    and "modulation_label K c = ''QPSK'' \<longleftrightarrow> c \<notin> set (modulation_cases K)"
    and "inj_on (modulation_label K) (set (modulation_cases K))"
  using assms by (auto simp: modulation_cases_def modulation_label_def inj_on_def)

lemma rolloff_labels:
  assumes "distinct (rolloff_cases K)"
  shows "map (rolloff_label K) (rolloff_cases K) = [''ROLLOFF_20'', ''ROLLOFF_25'']"
    and "rolloff_label K c = ''ROLLOFF_35'' \<longleftrightarrow> c \<notin> set (rolloff_cases K)"
    and "inj_on (rolloff_label K) (set (rolloff_cases K))"
  using assms by (auto simp: rolloff_cases_def rolloff_label_def inj_on_def)

lemma fec_labels_map:
  assumes "distinct (fec_cases K)"
  shows "map (fec_label K) (fec_cases K) =
           [''FEC_1_2'', ''FEC_2_3'', ''FEC_3_4'', ''FEC_4_5'', ''FEC_5_6'', ''FEC_6_7'',
            ''FEC_7_8'', ''FEC_8_9'', ''FEC_3_5'', ''FEC_9_10'', ''FEC_2_5'']"
proof -
  from assms have
    "FEC_2_3 K \<notin> {FEC_1_2 K}"
    "FEC_3_4 K \<notin> {FEC_1_2 K, FEC_2_3 K}"
    "FEC_4_5 K \<notin> {FEC_1_2 K, FEC_2_3 K, FEC_3_4 K}"
    "FEC_5_6 K \<notin> {FEC_1_2 K, FEC_2_3 K, FEC_3_4 K, FEC_4_5 K}"
    "FEC_6_7 K \<notin> {FEC_1_2 K, FEC_2_3 K, FEC_3_4 K, FEC_4_5 K, FEC_5_6 K}"
    "FEC_7_8 K \<notin> {FEC_1_2 K, FEC_2_3 K, FEC_3_4 K, FEC_4_5 K, FEC_5_6 K, FEC_6_7 K}"
    "FEC_8_9 K \<notin> {FEC_1_2 K, FEC_2_3 K, FEC_3_4 K, FEC_4_5 K, FEC_5_6 K, FEC_6_7 K,
       FEC_7_8 K}"
    "FEC_3_5 K \<notin> {FEC_1_2 K, FEC_2_3 K, FEC_3_4 K, FEC_4_5 K, FEC_5_6 K, FEC_6_7 K,
       FEC_7_8 K, FEC_8_9 K}"
    "FEC_9_10 K \<notin> {FEC_1_2 K, FEC_2_3 K, FEC_3_4 K, FEC_4_5 K, FEC_5_6 K, FEC_6_7 K,
       FEC_7_8 K, FEC_8_9 K, FEC_3_5 K}"
    "FEC_2_5 K \<notin> {FEC_1_2 K, FEC_2_3 K, FEC_3_4 K, FEC_4_5 K, FEC_5_6 K, FEC_6_7 K,
       FEC_7_8 K, FEC_8_9 K, FEC_3_5 K, FEC_9_10 K}"
    by (auto simp: fec_cases_def)
  then show ?thesis
    by (simp add: fec_cases_def fec_label_def)
qed

lemma fec_labels_default:
  "fec_label K c = ''FEC_AUTO'' \<longleftrightarrow> c \<notin> set (fec_cases K)"
  by (simp add: fec_cases_def fec_label_def)

lemma fec_labels_inj:
  assumes "distinct (fec_cases K)"
  shows "inj_on (fec_label K) (set (fec_cases K))"
proof -
  have "distinct (map (fec_label K) (fec_cases K))"
    unfolding fec_labels_map [OF assms] by simp
  then show ?thesis by (simp add: distinct_map)
qed

lemma labels_not_empty:
  "delivery_system_label K c \<noteq> []" "inversion_label K c \<noteq> []" "pilot_label K c \<noteq> []"
  "fec_label K c \<noteq> []" "modulation_label K c \<noteq> []" "rolloff_label K c \<noteq> []"
  by (simp_all add: delivery_system_label_def inversion_label_def pilot_label_def fec_label_def
        modulation_label_def rolloff_label_def)

text \<open>
  Claim C7: for every header against which the program compiles, each \<^verbatim>\<open>switch\<close> sends its
  case labels, in the order of the source, to the documented names, different codes to
  different names, and a code gets the default name (\<open>INVERSION_AUTO\<close>, \<open>PILOT_AUTO\<close>,
  \<open>FEC_AUTO\<close>, \<open>QPSK\<close>, \<open>ROLLOFF_35\<close>) exactly when it is none of the case labels. No label
  is empty, and the functions are total: there is no error.
\<close>

theorem enumeration_labels:
  assumes "switches_compile K"
  shows "map (inversion_label K) (inversion_cases K) = [''INVERSION_OFF'', ''INVERSION_ON'']
    \<and> map (pilot_label K) (pilot_cases K) = [''PILOT_ON'', ''PILOT_OFF'']
    \<and> map (fec_label K) (fec_cases K) =
        [''FEC_1_2'', ''FEC_2_3'', ''FEC_3_4'', ''FEC_4_5'', ''FEC_5_6'', ''FEC_6_7'',
         ''FEC_7_8'', ''FEC_8_9'', ''FEC_3_5'', ''FEC_9_10'', ''FEC_2_5'']
    \<and> map (modulation_label K) (modulation_cases K) = [''8PSK'', ''16APSK'', ''32APSK'']
    \<and> map (rolloff_label K) (rolloff_cases K) = [''ROLLOFF_20'', ''ROLLOFF_25'']
    \<and> inj_on (inversion_label K) (set (inversion_cases K))
    \<and> inj_on (pilot_label K) (set (pilot_cases K))
    \<and> inj_on (fec_label K) (set (fec_cases K))
    \<and> inj_on (modulation_label K) (set (modulation_cases K))
    \<and> inj_on (rolloff_label K) (set (rolloff_cases K))
    \<and> (inversion_label K c = ''INVERSION_AUTO'' \<longleftrightarrow> c \<notin> set (inversion_cases K))
    \<and> (pilot_label K c = ''PILOT_AUTO'' \<longleftrightarrow> c \<notin> set (pilot_cases K))
    \<and> (fec_label K c = ''FEC_AUTO'' \<longleftrightarrow> c \<notin> set (fec_cases K))
    \<and> (modulation_label K c = ''QPSK'' \<longleftrightarrow> c \<notin> set (modulation_cases K))
    \<and> (rolloff_label K c = ''ROLLOFF_35'' \<longleftrightarrow> c \<notin> set (rolloff_cases K))
    \<and> delivery_system_label K c = (if c = SYS_DVBS K then ''DVB-S'' else ''DVB-S2'')
    \<and> inversion_label K c \<noteq> [] \<and> pilot_label K c \<noteq> [] \<and> fec_label K c \<noteq> []
    \<and> modulation_label K c \<noteq> [] \<and> rolloff_label K c \<noteq> []"
proof -
  from assms have d: "distinct (inversion_cases K)" "distinct (pilot_cases K)"
    "distinct (fec_cases K)" "distinct (modulation_cases K)" "distinct (rolloff_cases K)"
    by (simp_all add: switches_compile_def)
  show ?thesis
    using inversion_labels [OF d(1)] pilot_labels [OF d(2)] fec_labels_map [OF d(3)]
      fec_labels_inj [OF d(3)] fec_labels_default modulation_labels [OF d(4)]
      rolloff_labels [OF d(5)] labels_not_empty
    by (simp add: delivery_system_label_def)
qed

theorem enumeration_labels_witness:
  "switches_compile linux_frontend_h
   \<and> fec_label linux_frontend_h 99 = ''FEC_AUTO''
   \<and> inversion_label linux_frontend_h 99 = ''INVERSION_AUTO''
   \<and> pilot_label linux_frontend_h 99 = ''PILOT_AUTO''
   \<and> modulation_label linux_frontend_h 99 = ''QPSK''
   \<and> rolloff_label linux_frontend_h 99 = ''ROLLOFF_35''
   \<and> map (fec_label linux_frontend_h) [1, 2, 3, 4, 5, 6, 7, 8, 10, 11, 12] =
       [''FEC_1_2'', ''FEC_2_3'', ''FEC_3_4'', ''FEC_4_5'', ''FEC_5_6'', ''FEC_6_7'',
        ''FEC_7_8'', ''FEC_8_9'', ''FEC_3_5'', ''FEC_9_10'', ''FEC_2_5'']"
proof -
  have h: "switches_compile linux_frontend_h"
    by (simp add: switches_compile_def linux_frontend_h_def inversion_cases_def
          pilot_cases_def fec_cases_def modulation_cases_def rolloff_cases_def)
  have c: "fec_cases linux_frontend_h = [1, 2, 3, 4, 5, 6, 7, 8, 10, 11, 12]"
    "inversion_cases linux_frontend_h = [0, 1]" "pilot_cases linux_frontend_h = [0, 1]"
    "modulation_cases linux_frontend_h = [9, 10, 11]" "rolloff_cases linux_frontend_h = [1, 2]"
    by (simp_all add: linux_frontend_h_def inversion_cases_def
          pilot_cases_def fec_cases_def modulation_cases_def rolloff_cases_def)
  show ?thesis
    using h enumeration_labels [OF h, of 99] unfolding c by simp
qed

section \<open>Device resolver\<close>

lemmas scan_defs =
  scan_int_def scan_digits_def isspace_def isdigit_def digit_value_def stored_def c_str_def

lemmas resolver_defs =
  nim_sockets_def socket_table_def nim_line_def begins_with_def fmt_socket_def fmt_device_def

text \<open>\<^verbatim>\<open>fe_id\<close> is \<^verbatim>\<open>slot\<close> itself if \<^verbatim>\<open>slot\<close> occurs in the table, otherwise the value before.\<close>

lemma find_slot_result: "find_slot sl ids d = (if sl \<in> set ids then sl else d)"
  by (induction ids) auto

lemma nim_sockets_result:
  assumes "socket_table ls = Done ids"
  shows "nim_sockets sl (Some ls) = Done (if sl \<in> set ids then sl else - 1)"
proof (cases "nim_lines ls ([- 1, - 1, - 1, - 1], Unset)")
  case (Done st)
  with assms show ?thesis
    by (cases st) (simp add: nim_sockets_def socket_table_def find_slot_result)
next
  case (Undef u)
  with assms show ?thesis by (simp add: socket_table_def)
next
  case Out_of_fuel
  with assms show ?thesis by (simp add: socket_table_def)
qed

text \<open>
  Claim C1, on the topology of the specification's example (socket 0 without a device
  line, socket 2 with frontend 1): the table records frontend 1 for socket 2, yet the
  resolver returns absent (\<open>- 1\<close>) for slot 2, because line 472 compares the recorded
  frontend ids, not the socket numbers, with the requested slot. For the same reason slot
  1, which the topology does not mention, resolves to 1. A missing file gives absent.
\<close>

theorem nim_sockets_example:
  "socket_table example_topology = Done [- 1, - 1, 1, - 1]
   \<and> nim_sockets 0 (Some example_topology) = Done (- 1)
   \<and> nim_sockets 2 (Some example_topology) = Done (- 1)
   \<and> nim_sockets 1 (Some example_topology) = Done 1
   \<and> nim_sockets 2 None = Done (- 1)"
  by (simp add: resolver_defs scan_defs example_topology_def)

text \<open>
  Claim C8: the table has four entries, all absent (\<open>- 1\<close>) before the first line is read.
  A device line that no socket line precedes is not ignored: line 462 stores through the
  pointer \<^verbatim>\<open>id\<close>, which has no value then, and the behaviour of the program is undefined.
\<close>

theorem device_line_without_header:
  "socket_table [] = Done [- 1, - 1, - 1, - 1]
   \<and> socket_table headless_topology = Undef Uninit_pointer
   \<and> nim_sockets 0 (Some headless_topology) = Undef Uninit_pointer"
  by (simp add: resolver_defs scan_defs headless_topology_def)

text \<open>
  The same holds for a socket number that the array has no element for: with a socket
  line \<^verbatim>\<open>NIM Socket 4:\<close> the device line stores past the end of \<^verbatim>\<open>ids\<close>, and a larger number
  is outside the array already when the address is formed.
\<close>

lemma socket_number_out_of_range:
  "nim_sockets 0 (Some [''NIM Socket 4:'', CHR 0x09 # ''Frontend_Device: 4'']) =
     Undef Out_of_bounds"
  "nim_sockets 0 (Some [''NIM Socket 5:'']) = Undef Out_of_bounds"
  by (simp_all add: resolver_defs scan_defs)

section \<open>DeviceFile I/O\<close>

text \<open>
  What the transfer loop returns: the bytes received are appended to the buffer, their
  number is what \<^verbatim>\<open>todo\<close> went down by, and when the loop stops with bytes still to do,
  the last system call either failed (\<open>rc = - 1\<close>, not interrupted) or moved nothing
  (\<open>rc = 0\<close>).
\<close>

lemma read_loop_result:
  "read_loop f e k todo got rc = Done (k', todo', got', rc') \<Longrightarrow>
     (\<exists>d. got' = got @ d \<and> length d + todo' = todo) \<and> k \<le> k'
     \<and> (todo' \<noteq> 0 \<longrightarrow> k < k'
          \<and> (rc' = - 1 \<and> read_ret e (k' - 1) todo' = Rd_error
              \<or> rc' = 0 \<and> read_ret e (k' - 1) todo' = Rd_moved []))"
proof (induction f arbitrary: k todo got rc)
  case 0
  then show ?case by (simp split: if_splits)
next
  case (Suc f)
  show ?case
  proof (cases "todo = 0")
    case True
    with Suc.prems show ?thesis by simp
  next
    case False
    show ?thesis
    proof (cases "read_ret e k todo")
      case Rd_eintr
      with False Suc.prems have "read_loop f e (Suc k) todo got (- 1) = Done (k', todo', got', rc')"
        by simp
      from Suc.IH [OF this] show ?thesis by auto
    next
      case Rd_error
      with False Suc.prems show ?thesis by auto
    next
      case (Rd_moved d)
      show ?thesis
      proof (cases "d = []")
        case True
        with Rd_moved False Suc.prems show ?thesis by auto
      next
        case nonempty: False
        with Rd_moved False Suc.prems have le: "length d \<le> todo"
          by (simp split: if_splits)
        with nonempty Rd_moved False Suc.prems
        have "read_loop f e (Suc k) (todo - length d) (got @ d) (int (length d))
                = Done (k', todo', got', rc')"
          by simp
        from Suc.IH [OF this] le show ?thesis by auto
      qed
    qed
  qed
qed

lemma read_loop_rc:
  "todo \<noteq> 0 \<Longrightarrow> read_loop f e k todo got rc = read_loop f e k todo got rc'"
  by (cases f) simp_all

lemma bs_read_eintr:
  assumes "open_ok e (opens s)" and "0 < count" and "read_ret e (reads s) count = Rd_eintr"
  shows "bs_read (Suc f) e s p count = bs_read f e (s\<lparr>reads := Suc (reads s)\<rparr>) p count"
proof -
  from assms(2) have "read_loop f e (Suc (reads s)) count [] (- 1)
      = read_loop f e (Suc (reads s)) count [] 0"
    by (intro read_loop_rc) simp
  with assms show ?thesis by (simp add: bs_read_def)
qed

lemma bs_read_result:
  assumes "bs_read f e s p count = Done (s', ret, got)" and "0 < count"
  shows "length got \<le> count"
    and "got \<noteq> [] \<Longrightarrow> ret = int (length got)"
    and "got = [] \<Longrightarrow> open_ok e (opens s) \<Longrightarrow>
           reads s < reads s'
           \<and> (ret = - 1 \<and> read_ret e (reads s' - 1) count = Rd_error
              \<or> ret = 0 \<and> read_ret e (reads s' - 1) count = Rd_moved [])"
    and "\<not> open_ok e (opens s) \<Longrightarrow> ret = - 1 \<and> got = [] \<and> reads s' = reads s"
proof -
  show "\<not> open_ok e (opens s) \<Longrightarrow> ret = - 1 \<and> got = [] \<and> reads s' = reads s"
    using assms(1) by (auto simp: bs_read_def emit_def)
  have *: "length got \<le> count \<and> (got \<noteq> [] \<longrightarrow> ret = int (length got))
     \<and> (got = [] \<longrightarrow> open_ok e (opens s) \<longrightarrow> reads s < reads s'
           \<and> (ret = - 1 \<and> read_ret e (reads s' - 1) count = Rd_error
              \<or> ret = 0 \<and> read_ret e (reads s' - 1) count = Rd_moved []))"
  proof (cases "open_ok e (opens s)")
    case False
    with assms(1) show ?thesis by (auto simp: bs_read_def emit_def)
  next
    case True
    show ?thesis
    proof (cases "read_loop f e (reads s) count [] 0")
      case (Done r)
      obtain k' todo' got' rc' where r: "r = (k', todo', got', rc')"
        by (cases r) auto
      from read_loop_result [OF Done [unfolded r]]
      have a: "length got' + todo' = count" and b: "reads s \<le> k'"
        and c: "todo' \<noteq> 0 \<longrightarrow> reads s < k'
          \<and> (rc' = - 1 \<and> read_ret e (k' - 1) todo' = Rd_error
              \<or> rc' = 0 \<and> read_ret e (k' - 1) todo' = Rd_moved [])"
        by auto
      from assms(1) True Done r
      have g: "got = got'" and k: "reads s' = k'"
        and ret: "ret = (if count - todo' \<noteq> 0 then int (count - todo') else rc')"
        by (auto simp: bs_read_def emit_def Let_def)
      from a have d: "count - todo' = length got'" by simp
      show ?thesis
      proof (cases "got' = []")
        case True
        with a assms(2) have "todo' = count" "todo' \<noteq> 0" by auto
        with c True g k ret d show ?thesis by auto
      next
        case False
        with a g ret d show ?thesis by auto
      qed
    next
      case (Undef u)
      with assms(1) True show ?thesis by (simp add: bs_read_def)
    next
      case Out_of_fuel
      with assms(1) True show ?thesis by (simp add: bs_read_def)
    qed
  qed
  from * show "length got \<le> count" by simp
  from * show "got \<noteq> [] \<Longrightarrow> ret = int (length got)" by simp
  from * show "got = [] \<Longrightarrow> open_ok e (opens s) \<Longrightarrow>
           reads s < reads s'
           \<and> (ret = - 1 \<and> read_ret e (reads s' - 1) count = Rd_error
              \<or> ret = 0 \<and> read_ret e (reads s' - 1) count = Rd_moved [])" by simp
qed

lemma write_loop_result:
  "write_loop f e k buf rc = Done (k', buf', rc') \<Longrightarrow>
     (\<exists>m. m \<le> length buf \<and> buf' = drop m buf) \<and> k \<le> k'
     \<and> (buf' \<noteq> [] \<longrightarrow> k < k'
          \<and> (rc' = - 1 \<and> write_ret e (k' - 1) buf' = Wr_error
              \<or> rc' = 0 \<and> write_ret e (k' - 1) buf' = Wr_moved 0))"
proof (induction f arbitrary: k buf rc)
  case 0
  then show ?case by (auto split: if_splits)
next
  case (Suc f)
  show ?case
  proof (cases "buf = []")
    case True
    with Suc.prems show ?thesis by simp
  next
    case False
    show ?thesis
    proof (cases "write_ret e k buf")
      case Wr_eintr
      with False Suc.prems have "write_loop f e (Suc k) buf (- 1) = Done (k', buf', rc')"
        by simp
      from Suc.IH [OF this] show ?thesis by auto
    next
      case Wr_error
      with False Suc.prems have "k' = Suc k" "buf' = buf" "rc' = - 1" by auto
      with Wr_error False show ?thesis by (auto intro: exI [of _ 0])
    next
      case (Wr_moved m)
      show ?thesis
      proof (cases "m = 0")
        case True
        with Wr_moved False Suc.prems have "k' = Suc k" "buf' = buf" "rc' = 0" by auto
        with Wr_moved True False show ?thesis by (auto intro: exI [of _ 0])
      next
        case nonzero: False
        with Wr_moved False Suc.prems have le: "m \<le> length buf"
          by (simp split: if_splits)
        with nonzero Wr_moved False Suc.prems
        have "write_loop f e (Suc k) (drop m buf) (int m) = Done (k', buf', rc')"
          by simp
        from Suc.IH [OF this] obtain m' where m': "m' \<le> length (drop m buf)"
          "buf' = drop m' (drop m buf)" and rest: "Suc k \<le> k'"
          "buf' \<noteq> [] \<longrightarrow> Suc k < k'
          \<and> (rc' = - 1 \<and> write_ret e (k' - 1) buf' = Wr_error
              \<or> rc' = 0 \<and> write_ret e (k' - 1) buf' = Wr_moved 0)"
          by auto
        from m' le have "m' + m \<le> length buf \<and> buf' = drop (m' + m) buf" by auto
        with rest show ?thesis by (auto intro: exI [of _ "m' + m"])
      qed
    qed
  qed
qed

lemma write_loop_rc:
  "buf \<noteq> [] \<Longrightarrow> write_loop f e k buf rc = write_loop f e k buf rc'"
  by (cases f) simp_all

lemma bs_write_eintr:
  assumes "open_ok e (opens s)" and "msg \<noteq> []" and "write_ret e (writes s) msg = Wr_eintr"
  shows "bs_write (Suc f) e s p msg = bs_write f e (s\<lparr>writes := Suc (writes s)\<rparr>) p msg"
proof -
  from assms(2) have "write_loop f e (Suc (writes s)) msg (- 1)
      = write_loop f e (Suc (writes s)) msg 0"
    by (rule write_loop_rc)
  with assms show ?thesis by (simp add: bs_write_def)
qed

lemma bs_write_closed:
  assumes "bs_write f e s p msg = Done (s', ret)" and "\<not> open_ok e (opens s)"
  shows "ret = - 1 \<and> writes s' = writes s"
  using assms by (auto simp: bs_write_def emit_def)

lemma bs_write_result:
  assumes "bs_write f e s p msg = Done (s', ret)" and "msg \<noteq> []" and "open_ok e (opens s)"
  shows "\<exists>m rc. m \<le> length msg
           \<and> write_loop f e (writes s) msg 0 = Done (writes s', drop m msg, rc)
           \<and> (m \<noteq> 0 \<longrightarrow> ret = int m)
           \<and> (m = 0 \<longrightarrow> writes s < writes s'
                \<and> (ret = - 1 \<and> write_ret e (writes s' - 1) msg = Wr_error
                   \<or> ret = 0 \<and> write_ret e (writes s' - 1) msg = Wr_moved 0))
           \<and> (m < length msg \<longrightarrow> writes s < writes s'
                \<and> (write_ret e (writes s' - 1) (drop m msg) = Wr_error
                   \<or> write_ret e (writes s' - 1) (drop m msg) = Wr_moved 0))"
proof (cases "write_loop f e (writes s) msg 0")
  case (Done r)
  obtain k' buf' rc' where r: "r = (k', buf', rc')"
    by (cases r) auto
  from write_loop_result [OF Done [unfolded r]]
  obtain m where m: "m \<le> length msg" "buf' = drop m msg"
    and c: "buf' \<noteq> [] \<longrightarrow> writes s < k'
          \<and> (rc' = - 1 \<and> write_ret e (k' - 1) buf' = Wr_error
              \<or> rc' = 0 \<and> write_ret e (k' - 1) buf' = Wr_moved 0)"
    by auto
  from m have d: "length msg - length buf' = m" by simp
  from assms(1,3) Done r d
  have k: "writes s' = k'" and ret: "ret = (if m \<noteq> 0 then int m else rc')"
    by (auto simp: bs_write_def emit_def Let_def)
  have "m = 0 \<longrightarrow> writes s < writes s'
                \<and> (ret = - 1 \<and> write_ret e (writes s' - 1) msg = Wr_error
                   \<or> ret = 0 \<and> write_ret e (writes s' - 1) msg = Wr_moved 0)"
    using c m assms(2) k ret by auto
  moreover have "m \<noteq> 0 \<longrightarrow> ret = int m"
    using ret by simp
  moreover have "m < length msg \<longrightarrow> writes s < writes s'
                \<and> (write_ret e (writes s' - 1) (drop m msg) = Wr_error
                   \<or> write_ret e (writes s' - 1) (drop m msg) = Wr_moved 0)"
    using c m k by auto
  moreover have "write_loop f e (writes s) msg 0 = Done (writes s', drop m msg, rc')"
    using Done r m k by simp
  ultimately show ?thesis using m(1) by blast
next
  case (Undef u)
  with assms(1,3) show ?thesis by (simp add: bs_write_def)
next
  case Out_of_fuel
  with assms(1,3) show ?thesis by (simp add: bs_write_def)
qed

text \<open>
  Both loops end when only finitely many calls are interrupted: if interrupted calls occur
  only among the first \<open>B\<close> calls of the run, one unit of fuel for every byte to do and
  for every call that can still be interrupted is enough.
\<close>

lemma read_loop_returns:
  assumes "\<forall>k n. read_ret e k n = Rd_eintr \<longrightarrow> k < B"
  shows "todo + (B - k) \<le> f \<Longrightarrow> read_loop f e k todo got rc \<noteq> Out_of_fuel"
proof (induction f arbitrary: k todo got rc)
  case 0
  then show ?case by simp
next
  case (Suc f)
  show ?case
  proof (cases "todo = 0")
    case True
    then show ?thesis by simp
  next
    case False
    show ?thesis
    proof (cases "read_ret e k todo")
      case Rd_eintr
      with assms have "k < B" by blast
      with Suc.prems have "todo + (B - Suc k) \<le> f" by simp
      from Suc.IH [OF this] Rd_eintr False show ?thesis by simp
    next
      case Rd_error
      with False show ?thesis by simp
    next
      case (Rd_moved d)
      show ?thesis
      proof (cases "d = [] \<or> todo < length d")
        case True
        with Rd_moved False show ?thesis by auto
      next
        case ok: False
        then have "d \<noteq> []" and le: "length d \<le> todo" by simp_all
        then have "1 \<le> length d" by (cases d) simp_all
        with Suc.prems le have "(todo - length d) + (B - Suc k) \<le> f" by arith
        from Suc.IH [OF this] Rd_moved False ok show ?thesis by simp
      qed
    qed
  qed
qed

lemma bs_read_returns:
  assumes "\<forall>k n. read_ret e k n = Rd_eintr \<longrightarrow> k < B"
    and "count + (B - reads s) \<le> f"
  shows "bs_read f e s p count \<noteq> Out_of_fuel"
proof (cases "read_loop f e (reads s) count [] 0")
  case (Done r)
  then show ?thesis by (cases r) (simp add: bs_read_def Let_def)
next
  case (Undef u)
  then show ?thesis by (simp add: bs_read_def)
next
  case Out_of_fuel
  with read_loop_returns [OF assms] show ?thesis by simp
qed

lemma write_loop_returns:
  assumes "\<forall>k b. write_ret e k b = Wr_eintr \<longrightarrow> k < B"
  shows "length buf + (B - k) \<le> f \<Longrightarrow> write_loop f e k buf rc \<noteq> Out_of_fuel"
proof (induction f arbitrary: k buf rc)
  case 0
  then show ?case by simp
next
  case (Suc f)
  show ?case
  proof (cases "buf = []")
    case True
    then show ?thesis by simp
  next
    case False
    show ?thesis
    proof (cases "write_ret e k buf")
      case Wr_eintr
      with assms have "k < B" by blast
      with Suc.prems have "length buf + (B - Suc k) \<le> f" by simp
      from Suc.IH [OF this] Wr_eintr False show ?thesis by simp
    next
      case Wr_error
      with False show ?thesis by simp
    next
      case (Wr_moved m)
      show ?thesis
      proof (cases "m = 0 \<or> length buf < m")
        case True
        with Wr_moved False show ?thesis by auto
      next
        case ok: False
        then have "0 < m" and "m \<le> length buf" by simp_all
        with Suc.prems have "length (drop m buf) + (B - Suc k) \<le> f" by simp
        from Suc.IH [OF this] Wr_moved False ok show ?thesis by simp
      qed
    qed
  qed
qed

lemma bs_write_returns:
  assumes "\<forall>k b. write_ret e k b = Wr_eintr \<longrightarrow> k < B"
    and "length msg + (B - writes s) \<le> f"
  shows "bs_write f e s p msg \<noteq> Out_of_fuel"
proof (cases "write_loop f e (writes s) msg 0")
  case (Done r)
  then show ?thesis by (cases r) (simp add: bs_write_def Let_def)
next
  case (Undef u)
  then show ?thesis by (simp add: bs_write_def)
next
  case Out_of_fuel
  with write_loop_returns [OF assms] show ?thesis by simp
qed

text \<open>Unfolding the loops with a numeral for the fuel.\<close>

lemma read_loop_unfold:
  "0 < f \<Longrightarrow> read_loop f e k todo got rc =
     (if todo = 0 then Done (k, todo, got, rc)
      else case read_ret e k todo of
        Rd_eintr \<Rightarrow> read_loop (f - 1) e (Suc k) todo got (- 1)
      | Rd_error \<Rightarrow> Done (Suc k, todo, got, - 1)
      | Rd_moved d \<Rightarrow>
          if d = [] then Done (Suc k, todo, got, 0)
          else if todo < length d then Undef Overrun
          else read_loop (f - 1) e (Suc k) (todo - length d) (got @ d) (int (length d)))"
  by (cases f) (simp_all split: read_result.split)

lemma write_loop_unfold:
  "0 < f \<Longrightarrow> write_loop f e k buf rc =
     (if buf = [] then Done (k, buf, rc)
      else case write_ret e k buf of
        Wr_eintr \<Rightarrow> write_loop (f - 1) e (Suc k) buf (- 1)
      | Wr_error \<Rightarrow> Done (Suc k, buf, - 1)
      | Wr_moved m \<Rightarrow>
          if m = 0 then Done (Suc k, buf, 0)
          else if length buf < m then Undef Overrun
          else write_loop (f - 1) e (Suc k) (drop m buf) (int m))"
  by (cases f) (simp_all split: write_result.split)

text \<open>
  For running the model on concrete inputs: the continuation of a bind is looked at only
  once its first part has been evaluated.
\<close>

lemma obind_weak_cong: "m = m' \<Longrightarrow> obind m g = obind m' g"
  by simp

lemmas io_defs =
  bs_read_def bs_write_def emit_def start_state_def script_def read_loop_unfold
  write_loop_unfold bs_ctrl_path_def bs_info_path_def dec_int_def dec.simps

lemmas env_defs =
  plain_env_def stuck_env_def interrupted_env_def broken_env_def closed_env_def
  without_read_def without_write_def

text \<open>
  A transfer that returns with bytes still to do has stopped at a system call that failed
  or moved nothing.
\<close>

lemma bs_read_stops:
  assumes "bs_read f e s p count = Done (s', ret, got)" and "open_ok e (opens s)"
    and "length got < count"
  shows "reads s < reads s'
         \<and> (read_ret e (reads s' - 1) (count - length got) = Rd_error
            \<or> read_ret e (reads s' - 1) (count - length got) = Rd_moved [])"
proof (cases "read_loop f e (reads s) count [] 0")
  case (Done r)
  obtain k' todo' got' rc' where r: "r = (k', todo', got', rc')"
    by (cases r) auto
  from read_loop_result [OF Done [unfolded r]]
  have a: "length got' + todo' = count"
    and c: "todo' \<noteq> 0 \<longrightarrow> reads s < k'
          \<and> (rc' = - 1 \<and> read_ret e (k' - 1) todo' = Rd_error
              \<or> rc' = 0 \<and> read_ret e (k' - 1) todo' = Rd_moved [])"
    by auto
  from assms(1,2) Done r have g: "got = got'" and k: "reads s' = k'"
    by (auto simp: bs_read_def emit_def Let_def)
  from a g assms(3) have "todo' \<noteq> 0" and "count - length got = todo'"
    by auto
  with c k show ?thesis by auto
next
  case (Undef u)
  with assms(1,2) show ?thesis by (simp add: bs_read_def)
next
  case Out_of_fuel
  with assms(1,2) show ?thesis by (simp add: bs_read_def)
qed

text \<open>
  An interrupted call can be taken out of a run: the transfer returns the same value and
  the same bytes as in the run in which that call does not take place. First the loop
  from a call after the one taken out, then from a call before it.
\<close>

lemma read_loop_later:
  assumes "\<And>k n. j \<le> k \<Longrightarrow> read_ret e' k n = read_ret e (Suc k) n"
  shows "j \<le> k \<Longrightarrow> read_loop f e' k todo got rc = Done (k', todo', got', rc') \<Longrightarrow>
           read_loop f e (Suc k) todo got rc = Done (Suc k', todo', got', rc')"
proof (induction f arbitrary: k todo got rc)
  case 0
  then show ?case by (simp split: if_splits)
next
  case (Suc f)
  show ?case
  proof (cases "todo = 0")
    case True
    with Suc.prems show ?thesis by simp
  next
    case False
    from Suc.prems(1) have a: "read_ret e (Suc k) todo = read_ret e' k todo"
      by (simp add: assms)
    from Suc.prems(1) have le: "j \<le> Suc k"
      by simp
    show ?thesis
    proof (cases "read_ret e' k todo")
      case Rd_eintr
      with False Suc.prems have "read_loop f e' (Suc k) todo got (- 1) = Done (k', todo', got', rc')"
        by simp
      from Suc.IH [OF le this] Rd_eintr a False show ?thesis by simp
    next
      case Rd_error
      with False Suc.prems a show ?thesis by auto
    next
      case (Rd_moved d)
      show ?thesis
      proof (cases "d = []")
        case True
        with Rd_moved False Suc.prems a show ?thesis by auto
      next
        case nonempty: False
        with Rd_moved False Suc.prems have l: "\<not> todo < length d"
          by (simp split: if_splits)
        with nonempty Rd_moved False Suc.prems
        have "read_loop f e' (Suc k) (todo - length d) (got @ d) (int (length d))
                = Done (k', todo', got', rc')"
          by simp
        from Suc.IH [OF le this] Rd_moved a False nonempty l show ?thesis by simp
      qed
    qed
  qed
qed

lemma read_loop_without:
  assumes "\<forall>n. read_ret e j n = Rd_eintr"
  shows "k \<le> j \<Longrightarrow> read_loop f (without_read j e) k todo got rc = Done (k', todo', got', rc') \<Longrightarrow>
           \<exists>k''. read_loop (Suc f) e k todo got rc = Done (k'', todo', got', rc')"
proof (induction f arbitrary: k todo got rc)
  case 0
  then show ?case by (simp split: if_splits)
next
  case (Suc f)
  let ?e = "without_read j e"
  have later: "\<And>k n. j \<le> k \<Longrightarrow> read_ret ?e k n = read_ret e (Suc k) n"
    by (simp add: without_read_def)
  show ?case
  proof (cases "todo = 0")
    case True
    with Suc.prems show ?thesis by simp
  next
    case False
    show ?thesis
    proof (cases "k = j")
      case True
      from read_loop_later [of j ?e e k "Suc f", OF later _ Suc.prems(2)] True
      have "read_loop (Suc f) e (Suc k) todo got rc = Done (Suc k', todo', got', rc')"
        by simp
      with False have "read_loop (Suc f) e (Suc k) todo got (- 1) = Done (Suc k', todo', got', rc')"
        using read_loop_rc [of todo "Suc f" e "Suc k" got rc "- 1"] by simp
      moreover from assms True have "read_ret e k todo = Rd_eintr"
        by simp
      ultimately show ?thesis
        using False by (subst read_loop.simps) simp
    next
      case ne: False
      with Suc.prems(1) have lt: "k < j" and le: "Suc k \<le> j"
        by simp_all
      then have a: "read_ret e k todo = read_ret ?e k todo"
        by (simp add: without_read_def)
      show ?thesis
      proof (cases "read_ret ?e k todo")
        case Rd_eintr
        with False Suc.prems
        have "read_loop f ?e (Suc k) todo got (- 1) = Done (k', todo', got', rc')"
          by simp
        from Suc.IH [OF le this] Rd_eintr a False show ?thesis
          by (subst read_loop.simps) simp
      next
        case Rd_error
        with False Suc.prems a show ?thesis by auto
      next
        case (Rd_moved d)
        show ?thesis
        proof (cases "d = []")
          case True
          with Rd_moved False Suc.prems a show ?thesis by auto
        next
          case nonempty: False
          with Rd_moved False Suc.prems have l: "\<not> todo < length d"
            by (simp split: if_splits)
          with nonempty Rd_moved False Suc.prems
          have "read_loop f ?e (Suc k) (todo - length d) (got @ d) (int (length d))
                  = Done (k', todo', got', rc')"
            by simp
          from Suc.IH [OF le this] Rd_moved a False nonempty l show ?thesis
            by (subst read_loop.simps) simp
        qed
      qed
    qed
  qed
qed

lemma bs_read_without:
  assumes "\<forall>n. read_ret e j n = Rd_eintr" and "reads s \<le> j"
    and "bs_read f (without_read j e) s p count = Done (s', ret, got)"
  shows "\<exists>t. bs_read (Suc f) e s p count = Done (t, ret, got) \<and> trace t = trace s'"
proof (cases "open_ok e (opens s)")
  case False
  with assms(3) show ?thesis
    by (auto simp: bs_read_def without_read_def)
next
  case True
  then have o: "open_ok (without_read j e) (opens s)"
    by (simp add: without_read_def)
  show ?thesis
  proof (cases "read_loop f (without_read j e) (reads s) count [] 0")
    case (Done r)
    obtain k' todo' got' rc' where r: "r = (k', todo', got', rc')"
      by (cases r) auto
    from read_loop_without [OF assms(1,2) Done [unfolded r]]
    obtain k'' where "read_loop (Suc f) e (reads s) count [] 0 = Done (k'', todo', got', rc')"
      by blast
    with assms(3) True o Done r show ?thesis
      by (auto simp: bs_read_def emit_def Let_def)
  next
    case (Undef u)
    with assms(3) o show ?thesis by (simp add: bs_read_def)
  next
    case Out_of_fuel
    with assms(3) o show ?thesis by (simp add: bs_read_def)
  qed
qed

lemma write_loop_later:
  assumes "\<And>k b. j \<le> k \<Longrightarrow> write_ret e' k b = write_ret e (Suc k) b"
  shows "j \<le> k \<Longrightarrow> write_loop f e' k buf rc = Done (k', buf', rc') \<Longrightarrow>
           write_loop f e (Suc k) buf rc = Done (Suc k', buf', rc')"
proof (induction f arbitrary: k buf rc)
  case 0
  then show ?case by (simp split: if_splits)
next
  case (Suc f)
  show ?case
  proof (cases "buf = []")
    case True
    with Suc.prems show ?thesis by simp
  next
    case False
    from Suc.prems(1) have a: "write_ret e (Suc k) buf = write_ret e' k buf"
      by (simp add: assms)
    from Suc.prems(1) have le: "j \<le> Suc k"
      by simp
    show ?thesis
    proof (cases "write_ret e' k buf")
      case Wr_eintr
      with False Suc.prems have "write_loop f e' (Suc k) buf (- 1) = Done (k', buf', rc')"
        by simp
      from Suc.IH [OF le this] Wr_eintr a False show ?thesis by simp
    next
      case Wr_error
      with False Suc.prems a show ?thesis by auto
    next
      case (Wr_moved m)
      show ?thesis
      proof (cases "m = 0")
        case True
        with Wr_moved False Suc.prems a show ?thesis by auto
      next
        case nonzero: False
        with Wr_moved False Suc.prems have l: "\<not> length buf < m"
          by (simp split: if_splits)
        with nonzero Wr_moved False Suc.prems
        have "write_loop f e' (Suc k) (drop m buf) (int m) = Done (k', buf', rc')"
          by simp
        from Suc.IH [OF le this] Wr_moved a False nonzero l show ?thesis by simp
      qed
    qed
  qed
qed

lemma write_loop_without:
  assumes "\<forall>b. write_ret e j b = Wr_eintr"
  shows "k \<le> j \<Longrightarrow> write_loop f (without_write j e) k buf rc = Done (k', buf', rc') \<Longrightarrow>
           \<exists>k''. write_loop (Suc f) e k buf rc = Done (k'', buf', rc')"
proof (induction f arbitrary: k buf rc)
  case 0
  then show ?case by (simp split: if_splits)
next
  case (Suc f)
  let ?e = "without_write j e"
  have later: "\<And>k b. j \<le> k \<Longrightarrow> write_ret ?e k b = write_ret e (Suc k) b"
    by (simp add: without_write_def)
  show ?case
  proof (cases "buf = []")
    case True
    with Suc.prems show ?thesis by simp
  next
    case False
    show ?thesis
    proof (cases "k = j")
      case True
      from write_loop_later [of j ?e e k "Suc f", OF later _ Suc.prems(2)] True
      have "write_loop (Suc f) e (Suc k) buf rc = Done (Suc k', buf', rc')"
        by simp
      with False have "write_loop (Suc f) e (Suc k) buf (- 1) = Done (Suc k', buf', rc')"
        using write_loop_rc [of buf "Suc f" e "Suc k" rc "- 1"] by simp
      moreover from assms True have "write_ret e k buf = Wr_eintr"
        by simp
      ultimately show ?thesis
        using False by (subst write_loop.simps) simp
    next
      case ne: False
      with Suc.prems(1) have lt: "k < j" and le: "Suc k \<le> j"
        by simp_all
      then have a: "write_ret e k buf = write_ret ?e k buf"
        by (simp add: without_write_def)
      show ?thesis
      proof (cases "write_ret ?e k buf")
        case Wr_eintr
        with False Suc.prems
        have "write_loop f ?e (Suc k) buf (- 1) = Done (k', buf', rc')"
          by simp
        from Suc.IH [OF le this] Wr_eintr a False show ?thesis
          by (subst write_loop.simps) simp
      next
        case Wr_error
        with False Suc.prems a show ?thesis by auto
      next
        case (Wr_moved m)
        show ?thesis
        proof (cases "m = 0")
          case True
          with Wr_moved False Suc.prems a show ?thesis by auto
        next
          case nonzero: False
          with Wr_moved False Suc.prems have l: "\<not> length buf < m"
            by (simp split: if_splits)
          with nonzero Wr_moved False Suc.prems
          have "write_loop f ?e (Suc k) (drop m buf) (int m) = Done (k', buf', rc')"
            by simp
          from Suc.IH [OF le this] Wr_moved a False nonzero l show ?thesis
            by (subst write_loop.simps) simp
        qed
      qed
    qed
  qed
qed

lemma bs_write_without:
  assumes "\<forall>b. write_ret e j b = Wr_eintr" and "writes s \<le> j"
    and "bs_write f (without_write j e) s p msg = Done (s', ret)"
  shows "\<exists>t. bs_write (Suc f) e s p msg = Done (t, ret) \<and> trace t = trace s'"
proof (cases "open_ok e (opens s)")
  case False
  with assms(3) show ?thesis
    by (auto simp: bs_write_def without_write_def)
next
  case True
  then have o: "open_ok (without_write j e) (opens s)"
    by (simp add: without_write_def)
  show ?thesis
  proof (cases "write_loop f (without_write j e) (writes s) msg 0")
    case (Done r)
    obtain k' buf' rc' where r: "r = (k', buf', rc')"
      by (cases r) auto
    from write_loop_without [OF assms(1,2) Done [unfolded r]]
    obtain k'' where "write_loop (Suc f) e (writes s) msg 0 = Done (k'', buf', rc')"
      by blast
    with assms(3) True o Done r show ?thesis
      by (auto simp: bs_write_def emit_def Let_def)
  next
    case (Undef u)
    with assms(3) o show ?thesis by (simp add: bs_write_def)
  next
    case Out_of_fuel
    with assms(3) o show ?thesis by (simp add: bs_write_def)
  qed
qed

text \<open>
  The buffer holds what the calls of the transfer stored, in their order; the part of the
  message that is left is what the calls of the transfer did not take.
\<close>

lemma read_loop_delivered:
  "read_loop f e k todo got rc = Done (k', todo', got', rc') \<Longrightarrow>
     got' = got @ delivered e k (k' - k) todo"
proof (induction f arbitrary: k todo got rc)
  case 0
  then show ?case by (simp split: if_splits)
next
  case (Suc f)
  show ?case
  proof (cases "todo = 0")
    case True
    with Suc.prems show ?thesis by simp
  next
    case False
    show ?thesis
    proof (cases "read_ret e k todo")
      case Rd_eintr
      with False Suc.prems
      have r: "read_loop f e (Suc k) todo got (- 1) = Done (k', todo', got', rc')"
        by simp
      from read_loop_result [OF r] have "Suc k \<le> k'"
        by simp
      then have "k' - k = Suc (k' - Suc k)"
        by simp
      with Suc.IH [OF r] Rd_eintr show ?thesis
        by simp
    next
      case Rd_error
      with False Suc.prems show ?thesis by auto
    next
      case (Rd_moved d)
      show ?thesis
      proof (cases "d = []")
        case True
        with Rd_moved False Suc.prems show ?thesis by auto
      next
        case nonempty: False
        with Rd_moved False Suc.prems have "\<not> todo < length d"
          by (simp split: if_splits)
        with nonempty Rd_moved False Suc.prems
        have r: "read_loop f e (Suc k) (todo - length d) (got @ d) (int (length d))
                = Done (k', todo', got', rc')"
          by simp
        from read_loop_result [OF r] have "Suc k \<le> k'"
          by simp
        then have "k' - k = Suc (k' - Suc k)"
          by simp
        with Suc.IH [OF r] Rd_moved show ?thesis
          by simp
      qed
    qed
  qed
qed

lemma bs_read_delivered:
  assumes "bs_read f e s p count = Done (s', ret, got)" and "open_ok e (opens s)"
  shows "got = delivered e (reads s) (reads s' - reads s) count"
proof (cases "read_loop f e (reads s) count [] 0")
  case (Done r)
  obtain k' todo' got' rc' where r: "r = (k', todo', got', rc')"
    by (cases r) auto
  from assms Done r have "got = got'" and "reads s' = k'"
    by (auto simp: bs_read_def emit_def Let_def)
  with read_loop_delivered [OF Done [unfolded r]] show ?thesis
    by simp
next
  case (Undef u)
  with assms show ?thesis by (simp add: bs_read_def)
next
  case Out_of_fuel
  with assms show ?thesis by (simp add: bs_read_def)
qed

lemma write_loop_accepted:
  "write_loop f e k buf rc = Done (k', buf', rc') \<Longrightarrow>
     accepted e k (k' - k) buf \<le> length buf \<and> buf' = drop (accepted e k (k' - k) buf) buf"
proof (induction f arbitrary: k buf rc)
  case 0
  then show ?case by (simp split: if_splits)
next
  case (Suc f)
  show ?case
  proof (cases "buf = []")
    case True
    with Suc.prems show ?thesis by simp
  next
    case False
    show ?thesis
    proof (cases "write_ret e k buf")
      case Wr_eintr
      with False Suc.prems
      have r: "write_loop f e (Suc k) buf (- 1) = Done (k', buf', rc')"
        by simp
      from write_loop_result [OF r] have "Suc k \<le> k'"
        by simp
      then have "k' - k = Suc (k' - Suc k)"
        by simp
      with Suc.IH [OF r] Wr_eintr show ?thesis
        by simp
    next
      case Wr_error
      with False Suc.prems show ?thesis by auto
    next
      case (Wr_moved n)
      show ?thesis
      proof (cases "n = 0")
        case True
        with Wr_moved False Suc.prems show ?thesis by auto
      next
        case nonzero: False
        with Wr_moved False Suc.prems have le: "n \<le> length buf"
          by (simp split: if_splits)
        with nonzero Wr_moved False Suc.prems
        have r: "write_loop f e (Suc k) (drop n buf) (int n) = Done (k', buf', rc')"
          by simp
        from write_loop_result [OF r] have "Suc k \<le> k'"
          by simp
        then have "k' - k = Suc (k' - Suc k)"
          by simp
        moreover from Suc.IH [OF r]
        have ih: "accepted e (Suc k) (k' - Suc k) (drop n buf) \<le> length (drop n buf)"
          "buf' = drop (accepted e (Suc k) (k' - Suc k) (drop n buf)) (drop n buf)"
          by simp_all
        from ih(1) le have "n + accepted e (Suc k) (k' - Suc k) (drop n buf) \<le> length buf"
          by simp
        moreover from ih(2)
        have "buf' = drop (n + accepted e (Suc k) (k' - Suc k) (drop n buf)) buf"
          by (simp add: add.commute)
        ultimately show ?thesis
          using Wr_moved by simp
      qed
    qed
  qed
qed

lemma bs_write_accepted:
  assumes "bs_write f e s p msg = Done (s', ret)" and "open_ok e (opens s)"
  shows "accepted e (writes s) (writes s' - writes s) msg \<le> length msg"
    and "accepted e (writes s) (writes s' - writes s) msg \<noteq> 0 \<Longrightarrow>
           ret = int (accepted e (writes s) (writes s' - writes s) msg)"
proof -
  let ?a = "accepted e (writes s) (writes s' - writes s) msg"
  have "?a \<le> length msg \<and> (?a \<noteq> 0 \<longrightarrow> ret = int ?a)"
  proof (cases "write_loop f e (writes s) msg 0")
    case (Done r)
    obtain k' buf' rc' where r: "r = (k', buf', rc')"
      by (cases r) auto
    from assms Done r have k: "writes s' = k'"
      and ret: "ret = (if length msg - length buf' \<noteq> 0 then int (length msg - length buf')
                       else rc')"
      by (auto simp: bs_write_def emit_def Let_def)
    from write_loop_accepted [OF Done [unfolded r]] k
    have a: "?a \<le> length msg" and b: "buf' = drop ?a msg"
      by simp_all
    from a b have "length msg - length buf' = ?a"
      by simp
    with ret a show ?thesis
      by simp
  next
    case (Undef u)
    with assms show ?thesis by (simp add: bs_write_def)
  next
    case Out_of_fuel
    with assms show ?thesis by (simp add: bs_write_def)
  qed
  then show "?a \<le> length msg" and "?a \<noteq> 0 \<Longrightarrow> ret = int ?a"
    by simp_all
qed

text \<open>Unfolding both with a numeral for the number of calls.\<close>

lemma delivered_numeral:
  "delivered e k (numeral n) todo =
     (case read_ret e k todo of
        Rd_moved d \<Rightarrow> d @ delivered e (Suc k) (pred_numeral n) (todo - length d)
      | _ \<Rightarrow> delivered e (Suc k) (pred_numeral n) todo)"
  by (simp only: numeral_eq_Suc [of n] delivered.simps)

lemma accepted_numeral:
  "accepted e k (numeral n) buf =
     (case write_ret e k buf of
        Wr_moved m \<Rightarrow> m + accepted e (Suc k) (pred_numeral n) (drop m buf)
      | _ \<Rightarrow> accepted e (Suc k) (pred_numeral n) buf)"
  by (simp only: numeral_eq_Suc [of n] accepted.simps)

text \<open>
  Claim C3, as stated: a transfer that moved no byte returns a failure, that is, a value
  that the callers' test \<^verbatim>\<open>ret < 0\<close> recognises. It does not when the system call itself
  returns 0: a \<^verbatim>\<open>read\<close> at the end of the file makes \<^verbatim>\<open>bs_read\<close> return 0, and a \<^verbatim>\<open>write\<close> that
  takes no byte makes \<^verbatim>\<open>bs_write\<close> return 0.
\<close>

theorem bs_transfer_zero_not_failure:
  "bs_read 1 plain_env start_state (bs_info_path 0) 8191 =
     Done (\<lparr>opens = 1, reads = 1, writes = 0, looks = 0,
            trace = [Bs_read ''/proc/stb/frontend/0/bs_info'' 0 []]\<rparr>, 0, [])
   \<and> bs_write 1 stuck_env start_state (bs_ctrl_path 0) ''0 0 0 0 0'' =
     Done (\<lparr>opens = 1, reads = 0, writes = 1, looks = 0,
            trace = [Bs_write ''/proc/stb/frontend/0/bs_ctrl'' ''0 0 0 0 0'' 0]\<rparr>, 0)"
  by (simp add: io_defs env_defs)

text \<open>
  Claim C3, amended. For a non-empty request, whenever \<^verbatim>\<open>bs_read\<close> or \<^verbatim>\<open>bs_write\<close> returns:
  if at least one byte was moved, the value is the number of bytes moved (for \<^verbatim>\<open>bs_read\<close>
  the length of what the buffer received, for \<^verbatim>\<open>bs_write\<close> the length of the part of the
  message that is no longer to be written); if no byte was moved, the value is that of the
  last system call, which was not an interrupted one: \<open>- 1\<close> if it failed, and 0, which is
  not a failure for the callers, if it moved nothing; if the file cannot be opened, the
  value is \<open>- 1\<close> and no system call is made. The bytes moved are those of the system
  calls of the transfer, in their order. A transfer that returns before all bytes are
  moved has stopped at a system call that failed or moved nothing, never at an
  interrupted one.

  Every interrupted call, the first of a transfer or a later one, is issued again with
  the same request and does not show in the result: the loop goes on from the next call
  with the bytes still to do and the buffer as they were, and whenever the run in which
  one interrupted call, whichever it is, does not take place returns a value and bytes,
  the run with that call returns the same value and the same bytes. Both functions return
  when only finitely many calls are interrupted.
\<close>

theorem bs_transfer_result:
  "(0 < count \<and> bs_read f e s p count = Done (s', ret, got) \<longrightarrow>
      length got \<le> count
      \<and> (got \<noteq> [] \<longrightarrow> ret = int (length got))
      \<and> (got = [] \<and> open_ok e (opens s) \<longrightarrow>
           reads s < reads s'
           \<and> (ret = - 1 \<and> read_ret e (reads s' - 1) count = Rd_error
              \<or> ret = 0 \<and> read_ret e (reads s' - 1) count = Rd_moved []))
      \<and> (length got < count \<and> open_ok e (opens s) \<longrightarrow>
           reads s < reads s'
           \<and> (read_ret e (reads s' - 1) (count - length got) = Rd_error
              \<or> read_ret e (reads s' - 1) (count - length got) = Rd_moved []))
      \<and> (\<not> open_ok e (opens s) \<longrightarrow> ret = - 1 \<and> got = [] \<and> reads s' = reads s))
   \<and> (bs_read f e s p count = Done (s', ret, got) \<and> open_ok e (opens s) \<longrightarrow>
        got = delivered e (reads s) (reads s' - reads s) count)
   \<and> (0 < count \<and> open_ok e (opens s) \<and> read_ret e (reads s) count = Rd_eintr \<longrightarrow>
        bs_read (Suc f) e s p count = bs_read f e (s\<lparr>reads := Suc (reads s)\<rparr>) p count)
   \<and> (todo \<noteq> 0 \<and> read_ret e k todo = Rd_eintr \<longrightarrow>
        read_loop (Suc f) e k todo buf rc = read_loop f e (Suc k) todo buf rc)
   \<and> ((\<forall>n. read_ret e j n = Rd_eintr) \<and> reads s \<le> j
        \<and> bs_read f (without_read j e) s p count = Done (u, uret, ugot) \<longrightarrow>
        (\<exists>t. bs_read (Suc f) e s p count = Done (t, uret, ugot) \<and> trace t = trace u))
   \<and> (msg \<noteq> [] \<and> bs_write f e s p msg = Done (t', wret) \<longrightarrow>
        (open_ok e (opens s) \<longrightarrow>
           (\<exists>m rc. m \<le> length msg
              \<and> write_loop f e (writes s) msg 0 = Done (writes t', drop m msg, rc)
              \<and> (m \<noteq> 0 \<longrightarrow> wret = int m)
              \<and> (m = 0 \<longrightarrow> writes s < writes t'
                   \<and> (wret = - 1 \<and> write_ret e (writes t' - 1) msg = Wr_error
                      \<or> wret = 0 \<and> write_ret e (writes t' - 1) msg = Wr_moved 0))
              \<and> (m < length msg \<longrightarrow> writes s < writes t'
                   \<and> (write_ret e (writes t' - 1) (drop m msg) = Wr_error
                      \<or> write_ret e (writes t' - 1) (drop m msg) = Wr_moved 0))))
        \<and> (\<not> open_ok e (opens s) \<longrightarrow> wret = - 1 \<and> writes t' = writes s))
   \<and> (bs_write f e s p msg = Done (t', wret) \<and> open_ok e (opens s) \<longrightarrow>
        accepted e (writes s) (writes t' - writes s) msg \<le> length msg
        \<and> (accepted e (writes s) (writes t' - writes s) msg \<noteq> 0 \<longrightarrow>
             wret = int (accepted e (writes s) (writes t' - writes s) msg)))
   \<and> (msg \<noteq> [] \<and> open_ok e (opens s) \<and> write_ret e (writes s) msg = Wr_eintr \<longrightarrow>
        bs_write (Suc f) e s p msg = bs_write f e (s\<lparr>writes := Suc (writes s)\<rparr>) p msg)
   \<and> (rest \<noteq> [] \<and> write_ret e k rest = Wr_eintr \<longrightarrow>
        write_loop (Suc f) e k rest rc = write_loop f e (Suc k) rest rc)
   \<and> ((\<forall>b. write_ret e j b = Wr_eintr) \<and> writes s \<le> j
        \<and> bs_write f (without_write j e) s p msg = Done (w, wwret) \<longrightarrow>
        (\<exists>t. bs_write (Suc f) e s p msg = Done (t, wwret) \<and> trace t = trace w))
   \<and> ((\<forall>k n. read_ret e k n = Rd_eintr \<longrightarrow> k < B) \<and> count + (B - reads s) \<le> f \<longrightarrow>
        bs_read f e s p count \<noteq> Out_of_fuel)
   \<and> ((\<forall>k b. write_ret e k b = Wr_eintr \<longrightarrow> k < B) \<and> length msg + (B - writes s) \<le> f \<longrightarrow>
        bs_write f e s p msg \<noteq> Out_of_fuel)"
proof (intro conjI impI)
  assume a: "0 < count \<and> bs_read f e s p count = Done (s', ret, got)"
  then have r: "bs_read f e s p count = Done (s', ret, got)" and c: "0 < count"
    by simp_all
  show "length got \<le> count"
    by (rule bs_read_result(1) [OF r c])
  show "ret = int (length got)" if "got \<noteq> []"
    by (rule bs_read_result(2) [OF r c that])
  show "reads s < reads s'" if "got = [] \<and> open_ok e (opens s)"
    using bs_read_result(3) [OF r c] that by simp
  show "ret = - 1 \<and> read_ret e (reads s' - 1) count = Rd_error
          \<or> ret = 0 \<and> read_ret e (reads s' - 1) count = Rd_moved []"
    if "got = [] \<and> open_ok e (opens s)"
    using bs_read_result(3) [OF r c] that by simp
  show "reads s < reads s'" if "length got < count \<and> open_ok e (opens s)"
    using bs_read_stops [OF r] that by simp
  show "read_ret e (reads s' - 1) (count - length got) = Rd_error
          \<or> read_ret e (reads s' - 1) (count - length got) = Rd_moved []"
    if "length got < count \<and> open_ok e (opens s)"
    using bs_read_stops [OF r] that by simp
  show "ret = - 1" "got = []" "reads s' = reads s" if "\<not> open_ok e (opens s)"
    using bs_read_result(4) [OF r c that] by simp_all
next
  assume "bs_read f e s p count = Done (s', ret, got) \<and> open_ok e (opens s)"
  then show "got = delivered e (reads s) (reads s' - reads s) count"
    using bs_read_delivered [of f e s p count s' ret got] by simp
next
  assume a: "bs_write f e s p msg = Done (t', wret) \<and> open_ok e (opens s)"
  then show "accepted e (writes s) (writes t' - writes s) msg \<le> length msg"
    using bs_write_accepted(1) [of f e s p msg t' wret] by simp
  show "wret = int (accepted e (writes s) (writes t' - writes s) msg)"
    if "accepted e (writes s) (writes t' - writes s) msg \<noteq> 0"
    using a that bs_write_accepted(2) [of f e s p msg t' wret] by simp
next
  assume "0 < count \<and> open_ok e (opens s) \<and> read_ret e (reads s) count = Rd_eintr"
  then show "bs_read (Suc f) e s p count = bs_read f e (s\<lparr>reads := Suc (reads s)\<rparr>) p count"
    by (simp add: bs_read_eintr)
next
  assume a: "todo \<noteq> 0 \<and> read_ret e k todo = Rd_eintr"
  then have "read_loop (Suc f) e k todo buf rc = read_loop f e (Suc k) todo buf (- 1)"
    by simp
  also from a have "\<dots> = read_loop f e (Suc k) todo buf rc"
    by (intro read_loop_rc) simp
  finally show "read_loop (Suc f) e k todo buf rc = read_loop f e (Suc k) todo buf rc" .
next
  assume "(\<forall>n. read_ret e j n = Rd_eintr) \<and> reads s \<le> j
        \<and> bs_read f (without_read j e) s p count = Done (u, uret, ugot)"
  then show "\<exists>t. bs_read (Suc f) e s p count = Done (t, uret, ugot) \<and> trace t = trace u"
    using bs_read_without [of e j s f p count u uret ugot] by blast
next
  assume a: "msg \<noteq> [] \<and> bs_write f e s p msg = Done (t', wret)"
  then have w: "bs_write f e s p msg = Done (t', wret)" and m: "msg \<noteq> []"
    by simp_all
  show "\<exists>m rc. m \<le> length msg
          \<and> write_loop f e (writes s) msg 0 = Done (writes t', drop m msg, rc)
          \<and> (m \<noteq> 0 \<longrightarrow> wret = int m)
          \<and> (m = 0 \<longrightarrow> writes s < writes t'
               \<and> (wret = - 1 \<and> write_ret e (writes t' - 1) msg = Wr_error
                  \<or> wret = 0 \<and> write_ret e (writes t' - 1) msg = Wr_moved 0))
          \<and> (m < length msg \<longrightarrow> writes s < writes t'
               \<and> (write_ret e (writes t' - 1) (drop m msg) = Wr_error
                  \<or> write_ret e (writes t' - 1) (drop m msg) = Wr_moved 0))"
    if "open_ok e (opens s)"
    by (rule bs_write_result [OF w m that])
  show "wret = - 1" "writes t' = writes s" if "\<not> open_ok e (opens s)"
    using bs_write_closed [OF w that] by simp_all
next
  assume "msg \<noteq> [] \<and> open_ok e (opens s) \<and> write_ret e (writes s) msg = Wr_eintr"
  then show "bs_write (Suc f) e s p msg = bs_write f e (s\<lparr>writes := Suc (writes s)\<rparr>) p msg"
    by (simp add: bs_write_eintr)
next
  assume a: "rest \<noteq> [] \<and> write_ret e k rest = Wr_eintr"
  then have "write_loop (Suc f) e k rest rc = write_loop f e (Suc k) rest (- 1)"
    by simp
  also from a have "\<dots> = write_loop f e (Suc k) rest rc"
    by (intro write_loop_rc) simp
  finally show "write_loop (Suc f) e k rest rc = write_loop f e (Suc k) rest rc" .
next
  assume "(\<forall>b. write_ret e j b = Wr_eintr) \<and> writes s \<le> j
        \<and> bs_write f (without_write j e) s p msg = Done (w, wwret)"
  then show "\<exists>t. bs_write (Suc f) e s p msg = Done (t, wwret) \<and> trace t = trace w"
    using bs_write_without [of e j s f p msg w wwret] by blast
next
  assume "(\<forall>k n. read_ret e k n = Rd_eintr \<longrightarrow> k < B) \<and> count + (B - reads s) \<le> f"
  then show "bs_read f e s p count \<noteq> Out_of_fuel"
    using bs_read_returns [of e B count s f p] by blast
next
  assume "(\<forall>k b. write_ret e k b = Wr_eintr \<longrightarrow> k < B) \<and> length msg + (B - writes s) \<le> f"
  then show "bs_write f e s p msg \<noteq> Out_of_fuel"
    using bs_write_returns [of e B msg s f p] by blast
qed

theorem bs_transfer_result_witness:
  "bs_read 5 interrupted_env start_state (bs_ctrl_path 0) 8191 =
     Done (\<lparr>opens = 1, reads = 5, writes = 0, looks = 0,
            trace = [Bs_read ''/proc/stb/frontend/0/bs_ctrl'' 7 ''0 2 100'']\<rparr>, 7, ''0 2 100'')
   \<and> (7 :: int) = int (length ''0 2 100'')
   \<and> delivered interrupted_env 0 5 8191 = ''0 2 100''
   \<and> read_ret interrupted_env 4 (8191 - length ''0 2 100'') = Rd_moved []
   \<and> read_ret interrupted_env (reads start_state) 8191 = Rd_eintr
   \<and> bs_read (Suc 4) interrupted_env start_state (bs_ctrl_path 0) 8191 =
       bs_read 4 interrupted_env (start_state\<lparr>reads := Suc (reads start_state)\<rparr>)
         (bs_ctrl_path 0) 8191
   \<and> read_ret interrupted_env 2 8187 = Rd_eintr
   \<and> read_loop (Suc 2) interrupted_env 2 8187 ''0 2 '' 4 =
       read_loop 2 interrupted_env (Suc 2) 8187 ''0 2 '' 4
   \<and> bs_read 4 (without_read 2 interrupted_env) start_state (bs_ctrl_path 0) 8191 =
       Done (\<lparr>opens = 1, reads = 4, writes = 0, looks = 0,
              trace = [Bs_read ''/proc/stb/frontend/0/bs_ctrl'' 7 ''0 2 100'']\<rparr>,
             7, ''0 2 100'')
   \<and> (\<exists>t. bs_read (Suc 4) interrupted_env start_state (bs_ctrl_path 0) 8191 =
             Done (t, 7, ''0 2 100'')
           \<and> trace t = [Bs_read ''/proc/stb/frontend/0/bs_ctrl'' 7 ''0 2 100''])
   \<and> bs_write 5 interrupted_env start_state (bs_ctrl_path 0) ''0 0 0 0 0'' =
       Done (\<lparr>opens = 1, reads = 0, writes = 4, looks = 0,
              trace = [Bs_write ''/proc/stb/frontend/0/bs_ctrl'' ''0 0 0 0 0'' 9]\<rparr>, 9)
   \<and> accepted interrupted_env 0 4 ''0 0 0 0 0'' = 9
   \<and> (9 :: int) = int (accepted interrupted_env 0 4 ''0 0 0 0 0'')
   \<and> write_ret interrupted_env 2 ''0 0 0'' = Wr_eintr
   \<and> write_loop (Suc 2) interrupted_env 2 ''0 0 0'' 4 =
       write_loop 2 interrupted_env (Suc 2) ''0 0 0'' 4
   \<and> bs_write 4 (without_write 2 interrupted_env) start_state (bs_ctrl_path 0) ''0 0 0 0 0'' =
       Done (\<lparr>opens = 1, reads = 0, writes = 3, looks = 0,
              trace = [Bs_write ''/proc/stb/frontend/0/bs_ctrl'' ''0 0 0 0 0'' 9]\<rparr>, 9)
   \<and> (\<exists>t. bs_write (Suc 4) interrupted_env start_state (bs_ctrl_path 0) ''0 0 0 0 0'' =
             Done (t, 9)
           \<and> trace t = [Bs_write ''/proc/stb/frontend/0/bs_ctrl'' ''0 0 0 0 0'' 9])
   \<and> bs_read 1 plain_env start_state (bs_info_path 0) 8191 =
       Done (\<lparr>opens = 1, reads = 1, writes = 0, looks = 0,
              trace = [Bs_read ''/proc/stb/frontend/0/bs_info'' 0 []]\<rparr>, 0, [])
   \<and> read_ret plain_env 0 8191 = Rd_moved []
   \<and> bs_read 2 broken_env start_state (bs_ctrl_path 0) 8191 =
       Done (\<lparr>opens = 1, reads = 2, writes = 0, looks = 0,
              trace = [Bs_read ''/proc/stb/frontend/0/bs_ctrl'' 4 ''0 2 '']\<rparr>, 4, ''0 2 '')
   \<and> length ''0 2 '' < 8191 \<and> open_ok broken_env (opens start_state)
   \<and> (read_ret broken_env 1 8187 = Rd_error \<or> read_ret broken_env 1 8187 = Rd_moved [])
   \<and> read_ret broken_env 1 8187 = Rd_error
   \<and> \<not> open_ok closed_env (opens start_state)
   \<and> bs_read 0 closed_env start_state (bs_ctrl_path 0) 8191 =
       Done (\<lparr>opens = 1, reads = 0, writes = 0, looks = 0,
              trace = [Bs_read ''/proc/stb/frontend/0/bs_ctrl'' (- 1) []]\<rparr>, - 1, [])
   \<and> bs_write 0 closed_env start_state (bs_ctrl_path 0) ''0 0 0 0 0'' =
       Done (\<lparr>opens = 1, reads = 0, writes = 0, looks = 0,
              trace = [Bs_write ''/proc/stb/frontend/0/bs_ctrl'' ''0 0 0 0 0'' (- 1)]\<rparr>, - 1)
   \<and> bs_read 8194 interrupted_env start_state (bs_ctrl_path 0) 8191 \<noteq> Out_of_fuel
   \<and> bs_write 12 interrupted_env start_state (bs_ctrl_path 0) ''0 0 0 0 0'' \<noteq> Out_of_fuel"
proof -
  let ?p = "bs_ctrl_path 0"
  let ?R = "\<lparr>opens = 1, reads = 5, writes = 0, looks = 0,
            trace = [Bs_read ''/proc/stb/frontend/0/bs_ctrl'' 7 ''0 2 100'']\<rparr>"
  let ?U = "\<lparr>opens = 1, reads = 4, writes = 0, looks = 0,
            trace = [Bs_read ''/proc/stb/frontend/0/bs_ctrl'' 7 ''0 2 100'']\<rparr>"
  let ?W = "\<lparr>opens = 1, reads = 0, writes = 4, looks = 0,
              trace = [Bs_write ''/proc/stb/frontend/0/bs_ctrl'' ''0 0 0 0 0'' 9]\<rparr>"
  let ?V = "\<lparr>opens = 1, reads = 0, writes = 3, looks = 0,
              trace = [Bs_write ''/proc/stb/frontend/0/bs_ctrl'' ''0 0 0 0 0'' 9]\<rparr>"
  let ?E = "\<lparr>opens = 1, reads = 1, writes = 0, looks = 0,
              trace = [Bs_read ''/proc/stb/frontend/0/bs_info'' 0 []]\<rparr>"
  let ?B = "\<lparr>opens = 1, reads = 2, writes = 0, looks = 0,
              trace = [Bs_read ''/proc/stb/frontend/0/bs_ctrl'' 4 ''0 2 '']\<rparr>"
  let ?C = "\<lparr>opens = 1, reads = 0, writes = 0, looks = 0,
              trace = [Bs_read ''/proc/stb/frontend/0/bs_ctrl'' (- 1) []]\<rparr>"
  let ?D = "\<lparr>opens = 1, reads = 0, writes = 0, looks = 0,
              trace = [Bs_write ''/proc/stb/frontend/0/bs_ctrl'' ''0 0 0 0 0'' (- 1)]\<rparr>"
  have run1: "bs_read 5 interrupted_env start_state ?p 8191 = Done (?R, 7, ''0 2 100'')"
    by (simp add: io_defs env_defs cong: obind_weak_cong)
  have run2: "bs_write 5 interrupted_env start_state ?p ''0 0 0 0 0'' = Done (?W, 9)"
    by (simp add: io_defs env_defs cong: obind_weak_cong)
  have run3: "bs_read 1 plain_env start_state (bs_info_path 0) 8191 = Done (?E, 0, [])"
    by (simp add: io_defs env_defs cong: obind_weak_cong)
  have run4: "bs_read 4 (without_read 2 interrupted_env) start_state ?p 8191
                = Done (?U, 7, ''0 2 100'')"
    by (simp add: io_defs env_defs cong: obind_weak_cong)
  have run5: "bs_write 4 (without_write 2 interrupted_env) start_state ?p ''0 0 0 0 0''
                = Done (?V, 9)"
    by (simp add: io_defs env_defs cong: obind_weak_cong)
  have run6: "bs_read 2 broken_env start_state ?p 8191 = Done (?B, 4, ''0 2 '')"
    by (simp add: io_defs env_defs cong: obind_weak_cong)
  have run7: "bs_read 0 closed_env start_state ?p 8191 = Done (?C, - 1, [])"
    by (simp add: io_defs env_defs cong: obind_weak_cong)
  have run8: "bs_write 0 closed_env start_state ?p ''0 0 0 0 0'' = Done (?D, - 1)"
    by (simp add: io_defs env_defs cong: obind_weak_cong)
  have eof: "read_ret plain_env 0 8191 = Rd_moved []"
    by (simp add: env_defs)
  have last: "read_ret interrupted_env 4 (8191 - length ''0 2 100'') = Rd_moved []"
    by (simp add: env_defs script_def)
  have err: "read_ret broken_env 1 8187 = Rd_error"
    by (simp add: env_defs script_def)
  have part: "length ''0 2 '' < 8191 \<and> open_ok broken_env (opens start_state)"
    by (simp add: env_defs)
  have closed: "\<not> open_ok closed_env (opens start_state)"
    by (simp add: env_defs)
  have intr: "(0 :: nat) < 8191 \<and> open_ok interrupted_env (opens start_state)
                \<and> read_ret interrupted_env (reads start_state) 8191 = Rd_eintr"
    by (simp add: env_defs script_def start_state_def)
  have mid: "(8187 :: nat) \<noteq> 0 \<and> read_ret interrupted_env 2 8187 = Rd_eintr"
    by (simp add: env_defs script_def)
  have wmid: "''0 0 0'' \<noteq> [] \<and> write_ret interrupted_env 2 ''0 0 0'' = Wr_eintr"
    by (simp add: env_defs script_def)
  have always: "\<forall>n. read_ret interrupted_env 2 n = Rd_eintr"
    by (simp add: env_defs script_def)
  have walways: "\<forall>b. write_ret interrupted_env 2 b = Wr_eintr"
    by (simp add: env_defs script_def)
  have from_start: "reads start_state \<le> 2" "writes start_state \<le> 2"
    by (simp_all add: start_state_def)
  have r: "\<forall>k n. read_ret interrupted_env k n = Rd_eintr \<longrightarrow> k < 3"
    by (auto simp: env_defs script_def nth_Cons' split: if_splits)
  have w: "\<forall>k b. write_ret interrupted_env k b = Wr_eintr \<longrightarrow> k < 3"
    by (auto simp: env_defs script_def nth_Cons' split: if_splits)
  have f: "(8191 :: nat) + (3 - reads start_state) \<le> 8194"
    "length ''0 0 0 0 0'' + (3 - writes start_state) \<le> 12"
    by (simp_all add: start_state_def)
  have opened: "open_ok interrupted_env (opens start_state)"
    by (simp add: env_defs)
  have acc: "accepted interrupted_env 0 4 ''0 0 0 0 0'' = 9"
    by (simp add: accepted_numeral env_defs script_def)
  note u1 = bs_transfer_result [THEN conjunct1]
  note u2 = bs_transfer_result [THEN conjunct2, THEN conjunct1]
  note u3 = bs_transfer_result [THEN conjunct2, THEN conjunct2, THEN conjunct1]
  note u4 = bs_transfer_result [THEN conjunct2, THEN conjunct2, THEN conjunct2, THEN conjunct1]
  note u5 = bs_transfer_result [THEN conjunct2, THEN conjunct2, THEN conjunct2, THEN conjunct2,
    THEN conjunct1]
  note u7 = bs_transfer_result [THEN conjunct2, THEN conjunct2, THEN conjunct2, THEN conjunct2,
    THEN conjunct2, THEN conjunct2, THEN conjunct1]
  note u9 = bs_transfer_result [THEN conjunct2, THEN conjunct2, THEN conjunct2, THEN conjunct2,
    THEN conjunct2, THEN conjunct2, THEN conjunct2, THEN conjunct2, THEN conjunct1]
  note u10 = bs_transfer_result [THEN conjunct2, THEN conjunct2, THEN conjunct2, THEN conjunct2,
    THEN conjunct2, THEN conjunct2, THEN conjunct2, THEN conjunct2, THEN conjunct2,
    THEN conjunct1]
  note u11 = bs_transfer_result [THEN conjunct2, THEN conjunct2, THEN conjunct2, THEN conjunct2,
    THEN conjunct2, THEN conjunct2, THEN conjunct2, THEN conjunct2, THEN conjunct2,
    THEN conjunct2, THEN conjunct1]
  note u12 = bs_transfer_result [THEN conjunct2, THEN conjunct2, THEN conjunct2, THEN conjunct2,
    THEN conjunct2, THEN conjunct2, THEN conjunct2, THEN conjunct2, THEN conjunct2,
    THEN conjunct2, THEN conjunct2]
  from run1 have "(0 :: nat) < 8191
      \<and> bs_read 5 interrupted_env start_state ?p 8191 = Done (?R, 7, ''0 2 100'')"
    by simp
  note a1 = u1 [THEN mp, OF this]
  have "''0 2 100'' \<noteq> []"
    by simp
  from a1 [THEN conjunct2, THEN conjunct1, THEN mp, OF this]
  have t1: "(7 :: int) = int (length ''0 2 100'')" .
  from run1 opened
  have "bs_read 5 interrupted_env start_state ?p 8191 = Done (?R, 7, ''0 2 100'')
      \<and> open_ok interrupted_env (opens start_state)"
    by (intro conjI)
  from u2 [THEN mp, OF this]
  have t11: "delivered interrupted_env 0 5 8191 = ''0 2 100''"
    by (simp add: start_state_def)
  from run2 opened
  have "bs_write 5 interrupted_env start_state ?p ''0 0 0 0 0'' = Done (?W, 9)
      \<and> open_ok interrupted_env (opens start_state)"
    by (intro conjI)
  note a7 = u7 [THEN mp, OF this]
  from acc have "accepted interrupted_env (writes start_state) (writes ?W - writes start_state)
               ''0 0 0 0 0'' \<noteq> 0"
    by (simp add: start_state_def)
  from a7 [THEN conjunct2, THEN mp, OF this]
  have t12: "(9 :: int) = int (accepted interrupted_env 0 4 ''0 0 0 0 0'')"
    by (simp add: start_state_def)
  have t2: "bs_read (Suc 4) interrupted_env start_state ?p 8191 =
       bs_read 4 interrupted_env (start_state\<lparr>reads := Suc (reads start_state)\<rparr>) ?p 8191"
    by (rule u3 [THEN mp, OF intr])
  have t5: "read_loop (Suc 2) interrupted_env 2 8187 ''0 2 '' 4 =
       read_loop 2 interrupted_env (Suc 2) 8187 ''0 2 '' 4"
    by (rule u4 [THEN mp, OF mid])
  have t6: "write_loop (Suc 2) interrupted_env 2 ''0 0 0'' 4 =
       write_loop 2 interrupted_env (Suc 2) ''0 0 0'' 4"
    by (rule u9 [THEN mp, OF wmid])
  from always from_start(1) run4
  have "(\<forall>n. read_ret interrupted_env 2 n = Rd_eintr) \<and> reads start_state \<le> 2
        \<and> bs_read 4 (without_read 2 interrupted_env) start_state ?p 8191
            = Done (?U, 7, ''0 2 100'')"
    by (intro conjI)
  from u5 [THEN mp, OF this]
  have t7: "\<exists>t. bs_read (Suc 4) interrupted_env start_state ?p 8191 = Done (t, 7, ''0 2 100'')
           \<and> trace t = [Bs_read ''/proc/stb/frontend/0/bs_ctrl'' 7 ''0 2 100'']"
    by simp
  from walways from_start(2) run5
  have "(\<forall>b. write_ret interrupted_env 2 b = Wr_eintr) \<and> writes start_state \<le> 2
        \<and> bs_write 4 (without_write 2 interrupted_env) start_state ?p ''0 0 0 0 0''
            = Done (?V, 9)"
    by (intro conjI)
  from u10 [THEN mp, OF this]
  have t8: "\<exists>t. bs_write (Suc 4) interrupted_env start_state ?p ''0 0 0 0 0'' = Done (t, 9)
           \<and> trace t = [Bs_write ''/proc/stb/frontend/0/bs_ctrl'' ''0 0 0 0 0'' 9]"
    by simp
  from r f(1)
  have "(\<forall>k n. read_ret interrupted_env k n = Rd_eintr \<longrightarrow> k < 3)
        \<and> 8191 + (3 - reads start_state) \<le> 8194"
    by (intro conjI)
  then have t3: "bs_read 8194 interrupted_env start_state ?p 8191 \<noteq> Out_of_fuel"
    by (rule u11 [THEN mp])
  from w f(2)
  have "(\<forall>k b. write_ret interrupted_env k b = Wr_eintr \<longrightarrow> k < 3)
        \<and> length ''0 0 0 0 0'' + (3 - writes start_state) \<le> 12"
    by (intro conjI)
  then have t4: "bs_write 12 interrupted_env start_state ?p ''0 0 0 0 0'' \<noteq> Out_of_fuel"
    by (rule u12 [THEN mp])
  from run6 have "(0 :: nat) < 8191
      \<and> bs_read 2 broken_env start_state ?p 8191 = Done (?B, 4, ''0 2 '')"
    by simp
  from u1 [THEN mp, OF this, THEN conjunct2, THEN conjunct2, THEN conjunct2, THEN conjunct1,
    THEN mp, OF part, THEN conjunct2]
  have t9: "read_ret broken_env 1 8187 = Rd_error \<or> read_ret broken_env 1 8187 = Rd_moved []"
    by simp
  from run7 have "(0 :: nat) < 8191
      \<and> bs_read 0 closed_env start_state ?p 8191 = Done (?C, - 1, [])"
    by simp
  from u1 [THEN mp, OF this, THEN conjunct2, THEN conjunct2, THEN conjunct2, THEN conjunct2,
    THEN mp, OF closed]
  have t10: "reads ?C = reads start_state"
    by simp
  show ?thesis
    by (intro conjI)
      (rule run1 t1 t11 last intr [THEN conjunct2, THEN conjunct2] t2 mid [THEN conjunct2] t5 run4
         t7 run2 acc t12 wmid [THEN conjunct2] t6 run5 t8 run3 eof run6 part [THEN conjunct1]
         part [THEN conjunct2] t9 err closed run7 run8 t3 t4)+
qed

section \<open>Candidate reader\<close>



lemma obind_Done:
  "obind m g = Done y \<longleftrightarrow> (\<exists>x. m = Done x \<and> g x = Done y)"
  by (cases m) simp_all


text \<open>\<^verbatim>\<open>sscanf\<close> converts at most as many values as the format has directives.\<close>

lemma sscanf_length: "sscanf ds s = Done vs \<Longrightarrow> length vs \<le> length ds"
  by (induction ds s arbitrary: vs rule: sscanf.induct)
    (fastforce simp: obind_Done split: list.splits option.splits if_splits)+





section \<open>Integer fields\<close>














section \<open>Candidate loop\<close>








lemmas reader_defs =
  read_candidate_def parse_candidate_def candidate_body_def candidate_of_def fmt_candidate_def
  format_line_def


lemmas format_defs =
  default_config_def output_frequency_def band_shift_def round_to_1000_def





section \<open>Polling\<close>

text \<open>Unfolding the polling loop with a numeral for the fuel.\<close>

lemma poll_numeral:
  "poll (numeral k) e p s v =
     (if sigint e (looks s) then
        obind (bs_write (numeral k) e (s\<lparr>looks := Suc (looks s)\<rparr>) p ''0 0 0 0 0'')
          (\<lambda>(s1, ret). Done (s1, v, Poll_cancelled))
      else
        obind (bs_read (numeral k) e (s\<lparr>looks := Suc (looks s)\<rparr>) p (bufsiz e - 1))
          (\<lambda>(s1, ret, got).
            if ret < 0 then Done (s1, v, Poll_failed)
            else obind (sscanf fmt_status (c_str got)) (\<lambda>vs.
              case status (assign vs v) of
                None \<Rightarrow> Undef Uninit_value
              | Some st \<Rightarrow>
                  if st = 0 then Done (s1, assign vs v, Poll_break)
                  else poll (pred_numeral k) e p (emit (Usleep 100000) s1) (assign vs v))))"
  by (simp only: numeral_eq_Suc [of k] poll.simps)

lemmas session_defs =
  blindscan_def poll_numeral candidate_loop.simps request_def assign_def fmt_status_def

text \<open>One tick of the polling loop in which no signal is seen and the read succeeds.\<close>

lemma poll_tick:
  assumes "\<not> sigint e (looks s)"
    and "bs_read (Suc f) e (s\<lparr>looks := Suc (looks s)\<rparr>) p (bufsiz e - 1) = Done (s1, ret, got)"
    and "0 \<le> ret"
    and "sscanf fmt_status (c_str got) = Done vs"
    and "status (assign vs v) = Some st"
  shows "poll (Suc f) e p s v =
           (if st = 0 then Done (s1, assign vs v, Poll_break)
            else poll f e p (emit (Usleep 100000) s1) (assign vs v))"
  using assms by simp

lemma assign_Nil: "assign [] v = v"
  by (simp add: assign_def)

text \<open>
  Claim C6, as stated: a status line that does not parse as three integers keeps the loop
  polling. It does not when the line starts with the number 0: after the status
  \<^verbatim>\<open>1 2 10\<close>, the line \<^verbatim>\<open>0\<close> ends the polling, and the candidate loop asks for the two
  candidates that the earlier line announced.
\<close>

theorem stale_count_after_short_line:
  "blindscan 3 stale_env linux_frontend_h default_config 0 =
     Done (\<lparr>opens = 7, reads = 6, writes = 3, looks = 4,
            trace = [Bs_write ''/proc/stb/frontend/0/bs_ctrl'' ''1 950 1950 2 45'' 15,
                     Bs_read ''/proc/stb/frontend/0/bs_ctrl'' 6 ''1 2 10'',
                     Usleep 100000,
                     Bs_read ''/proc/stb/frontend/0/bs_ctrl'' 1 ''0'',
                     Bs_write ''/proc/stb/frontend/0/bs_info'' ''0'' 1,
                     Bs_read ''/proc/stb/frontend/0/bs_info'' 0 [],
                     Bs_write ''/proc/stb/frontend/0/bs_info'' ''1'' 1,
                     Bs_read ''/proc/stb/frontend/0/bs_info'' 0 []]\<rparr>, Finished)"
  by (simp add: session_defs reader_defs io_defs env_defs scan_defs stale_env_def format_defs
        cong: obind_weak_cong)

text \<open>
  Claim C6, amended. In a tick in which no signal is seen and the read does not fail:
  a line from which \<^verbatim>\<open>sscanf\<close> converts nothing leaves the three variables as they are, and
  if \<^verbatim>\<open>status\<close> holds a number other than 0 from an earlier tick, the loop sleeps and polls
  again; a line whose first number is not 0 makes the loop sleep and poll again, also
  when fewer than three numbers convert; a line whose first number is 0 ends the polling,
  also when fewer than three numbers convert, and \<^verbatim>\<open>num_info\<close> is then what an earlier tick
  stored.
\<close>

theorem status_line_tolerance:
  "(\<not> sigint e (looks s)
      \<and> bs_read (Suc f) e (s\<lparr>looks := Suc (looks s)\<rparr>) p (bufsiz e - 1) = Done (t, ret, got)
      \<and> 0 \<le> ret \<and> sscanf fmt_status (c_str got) = Done [] \<and> status v = Some st \<and> st \<noteq> 0
      \<longrightarrow> poll (Suc f) e p s v = poll f e p (emit (Usleep 100000) t) v)
   \<and> (\<not> sigint e (looks s)
      \<and> bs_read (Suc f) e (s\<lparr>looks := Suc (looks s)\<rparr>) p (bufsiz e - 1) = Done (t, ret, got)
      \<and> 0 \<le> ret \<and> sscanf fmt_status (c_str got) = Done (a # vs) \<and> a \<noteq> 0
      \<longrightarrow> poll (Suc f) e p s v = poll f e p (emit (Usleep 100000) t) (assign (a # vs) v))
   \<and> (\<not> sigint e (looks s)
      \<and> bs_read (Suc f) e (s\<lparr>looks := Suc (looks s)\<rparr>) p (bufsiz e - 1) = Done (t, ret, got)
      \<and> 0 \<le> ret \<and> sscanf fmt_status (c_str got) = Done (0 # vs)
      \<longrightarrow> poll (Suc f) e p s v = Done (t, assign (0 # vs) v, Poll_break))
   \<and> assign [] v = v
   \<and> assign [a] v = v\<lparr>status := Some a\<rparr>
   \<and> assign [a, b] v = v\<lparr>status := Some a, num_info := Some b\<rparr>"
proof (intro conjI impI)
  assume "\<not> sigint e (looks s)
      \<and> bs_read (Suc f) e (s\<lparr>looks := Suc (looks s)\<rparr>) p (bufsiz e - 1) = Done (t, ret, got)
      \<and> 0 \<le> ret \<and> sscanf fmt_status (c_str got) = Done [] \<and> status v = Some st \<and> st \<noteq> 0"
  then show "poll (Suc f) e p s v = poll f e p (emit (Usleep 100000) t) v"
    using poll_tick [of e s f p t ret got "[]" v st] by (simp add: assign_Nil)
next
  assume "\<not> sigint e (looks s)
      \<and> bs_read (Suc f) e (s\<lparr>looks := Suc (looks s)\<rparr>) p (bufsiz e - 1) = Done (t, ret, got)
      \<and> 0 \<le> ret \<and> sscanf fmt_status (c_str got) = Done (a # vs) \<and> a \<noteq> 0"
  then show "poll (Suc f) e p s v = poll f e p (emit (Usleep 100000) t) (assign (a # vs) v)"
    using poll_tick [of e s f p t ret got "a # vs" v a] by (simp add: assign_def)
next
  assume "\<not> sigint e (looks s)
      \<and> bs_read (Suc f) e (s\<lparr>looks := Suc (looks s)\<rparr>) p (bufsiz e - 1) = Done (t, ret, got)
      \<and> 0 \<le> ret \<and> sscanf fmt_status (c_str got) = Done (0 # vs)"
  then show "poll (Suc f) e p s v = Done (t, assign (0 # vs) v, Poll_break)"
    using poll_tick [of e s f p t ret got "0 # vs" v 0] by (simp add: assign_def)
qed (simp_all add: assign_def)

theorem status_line_tolerance_witness:
  "\<not> sigint garbled_env 0
   \<and> bs_read 3 garbled_env (start_state\<lparr>looks := 1\<rparr>) (bs_ctrl_path 0) 8191 =
       Done (\<lparr>opens = 1, reads = 2, writes = 0, looks = 1,
              trace = [Bs_read ''/proc/stb/frontend/0/bs_ctrl'' 4 ''busy'']\<rparr>, 4, ''busy'')
   \<and> sscanf fmt_status (c_str ''busy'') = Done []
   \<and> poll 3 garbled_env (bs_ctrl_path 0) start_state
         \<lparr>status = Some 1, num_info = Some 2, progress = Some 10\<rparr> =
       poll 2 garbled_env (bs_ctrl_path 0)
         \<lparr>opens = 1, reads = 2, writes = 0, looks = 1,
          trace = [Bs_read ''/proc/stb/frontend/0/bs_ctrl'' 4 ''busy'', Usleep 100000]\<rparr>
         \<lparr>status = Some 1, num_info = Some 2, progress = Some 10\<rparr>
   \<and> poll 3 garbled_env (bs_ctrl_path 0) start_state
         \<lparr>status = Some 1, num_info = Some 2, progress = Some 10\<rparr> =
       Done (\<lparr>opens = 2, reads = 4, writes = 0, looks = 2,
              trace = [Bs_read ''/proc/stb/frontend/0/bs_ctrl'' 4 ''busy'', Usleep 100000,
                       Bs_read ''/proc/stb/frontend/0/bs_ctrl'' 7 ''0 0 100'']\<rparr>,
             \<lparr>status = Some 0, num_info = Some 0, progress = Some 100\<rparr>, Poll_break)"
  using status_line_tolerance [where e = garbled_env and s = start_state and f = 2
      and p = "bs_ctrl_path 0" and ret = 4 and got = "''busy''" and st = 1
      and v = "\<lparr>status = Some 1, num_info = Some 2, progress = Some 10\<rparr>"
      and t = "\<lparr>opens = 1, reads = 2, writes = 0, looks = 1,
              trace = [Bs_read ''/proc/stb/frontend/0/bs_ctrl'' 4 ''busy'']\<rparr>"]
  by (simp add: session_defs io_defs env_defs scan_defs garbled_env_def cong: obind_weak_cong)

section \<open>Cancellation\<close>








section \<open>More fuel does not change a result\<close>

lemma obind_mono:
  assumes "obind m g = Done r"
    and "\<And>x. m = Done x \<Longrightarrow> m' = Done x"
    and "\<And>x. g x = Done r \<Longrightarrow> g' x = Done r"
  shows "obind m' g' = Done r"
  using assms by (cases m) auto

lemma read_loop_fuel:
  "read_loop f e k todo got rc = Done r \<Longrightarrow> read_loop (Suc f) e k todo got rc = Done r"
proof (induction f arbitrary: k todo got rc)
  case 0
  then show ?case by (simp split: if_splits)
next
  case (Suc f)
  show ?case
  proof (cases "todo = 0")
    case True
    with Suc.prems show ?thesis by simp
  next
    case False
    show ?thesis
    proof (cases "read_ret e k todo")
      case Rd_eintr
      with False Suc.prems have "read_loop f e (Suc k) todo got (- 1) = Done r" by simp
      from Suc.IH [OF this] Rd_eintr False show ?thesis by simp
    next
      case Rd_error
      with False Suc.prems show ?thesis by simp
    next
      case (Rd_moved d)
      show ?thesis
      proof (cases "d = []")
        case True
        with Rd_moved False Suc.prems show ?thesis by simp
      next
        case nonempty: False
        with Rd_moved False Suc.prems have le: "\<not> todo < length d"
          by (simp split: if_splits)
        with nonempty Rd_moved False Suc.prems
        have "read_loop f e (Suc k) (todo - length d) (got @ d) (int (length d)) = Done r"
          by simp
        from Suc.IH [OF this] Rd_moved False nonempty le show ?thesis by simp
      qed
    qed
  qed
qed

lemma write_loop_fuel:
  "write_loop f e k buf rc = Done r \<Longrightarrow> write_loop (Suc f) e k buf rc = Done r"
proof (induction f arbitrary: k buf rc)
  case 0
  then show ?case by (simp split: if_splits)
next
  case (Suc f)
  show ?case
  proof (cases "buf = []")
    case True
    with Suc.prems show ?thesis by simp
  next
    case False
    show ?thesis
    proof (cases "write_ret e k buf")
      case Wr_eintr
      with False Suc.prems have "write_loop f e (Suc k) buf (- 1) = Done r" by simp
      from Suc.IH [OF this] Wr_eintr False show ?thesis by simp
    next
      case Wr_error
      with False Suc.prems show ?thesis by simp
    next
      case (Wr_moved m)
      show ?thesis
      proof (cases "m = 0")
        case True
        with Wr_moved False Suc.prems show ?thesis by simp
      next
        case nonzero: False
        with Wr_moved False Suc.prems have le: "\<not> length buf < m"
          by (simp split: if_splits)
        with nonzero Wr_moved False Suc.prems
        have "write_loop f e (Suc k) (drop m buf) (int m) = Done r"
          by simp
        from Suc.IH [OF this] Wr_moved False nonzero le show ?thesis by simp
      qed
    qed
  qed
qed

lemma bs_read_fuel:
  assumes "bs_read f e s p count = Done r"
  shows "bs_read (Suc f) e s p count = Done r"
proof (cases "open_ok e (opens s)")
  case False
  with assms show ?thesis by (simp add: bs_read_def)
next
  case True
  with assms have "obind (read_loop f e (reads s) count [] 0) (\<lambda>(k, todo, got, rc).
          let ret = (if count - todo \<noteq> 0 then int (count - todo) else rc) in
          Done (emit (Bs_read p ret got) (s\<lparr>opens := Suc (opens s), reads := k\<rparr>),
                ret, got)) = Done r"
    by (simp add: bs_read_def)
  then have "obind (read_loop (Suc f) e (reads s) count [] 0) (\<lambda>(k, todo, got, rc).
          let ret = (if count - todo \<noteq> 0 then int (count - todo) else rc) in
          Done (emit (Bs_read p ret got) (s\<lparr>opens := Suc (opens s), reads := k\<rparr>),
                ret, got)) = Done r"
    by (rule obind_mono) (erule read_loop_fuel, assumption)
  with True show ?thesis by (simp only: bs_read_def not_True_eq_False if_False)
qed

lemma bs_write_fuel:
  assumes "bs_write f e s p msg = Done r"
  shows "bs_write (Suc f) e s p msg = Done r"
proof (cases "open_ok e (opens s)")
  case False
  with assms show ?thesis by (simp add: bs_write_def)
next
  case True
  with assms have "obind (write_loop f e (writes s) msg 0) (\<lambda>(k, buf, rc).
          let ret = (if length msg - length buf \<noteq> 0 then int (length msg - length buf) else rc) in
          Done (emit (Bs_write p msg ret) (s\<lparr>opens := Suc (opens s), writes := k\<rparr>),
                ret)) = Done r"
    by (simp add: bs_write_def)
  then have "obind (write_loop (Suc f) e (writes s) msg 0) (\<lambda>(k, buf, rc).
          let ret = (if length msg - length buf \<noteq> 0 then int (length msg - length buf) else rc) in
          Done (emit (Bs_write p msg ret) (s\<lparr>opens := Suc (opens s), writes := k\<rparr>),
                ret)) = Done r"
    by (rule obind_mono) (erule write_loop_fuel, assumption)
  with True show ?thesis by (simp only: bs_write_def not_True_eq_False if_False)
qed

lemma poll_fuel:
  "poll f e p s v = Done r \<Longrightarrow> poll (Suc f) e p s v = Done r"
proof (induction f arbitrary: s v)
  case 0
  then show ?case by simp
next
  case (Suc f)
  show ?case
  proof (cases "sigint e (looks s)")
    case True
    with Suc.prems
    have "obind (bs_write (Suc f) e (s\<lparr>looks := Suc (looks s)\<rparr>) p ''0 0 0 0 0'')
            (\<lambda>(s1, ret). Done (s1, v, Poll_cancelled)) = Done r"
      by simp
    then have "obind (bs_write (Suc (Suc f)) e (s\<lparr>looks := Suc (looks s)\<rparr>) p ''0 0 0 0 0'')
            (\<lambda>(s1, ret). Done (s1, v, Poll_cancelled)) = Done r"
      by (rule obind_mono) (erule bs_write_fuel, assumption)
    with True show ?thesis
      by (subst poll.simps) simp
  next
    case False
    with Suc.prems obtain s1 ret got
      where rd: "bs_read (Suc f) e (s\<lparr>looks := Suc (looks s)\<rparr>) p (bufsiz e - 1)
                  = Done (s1, ret, got)"
        and 1: "(if ret < 0 then Done (s1, v, Poll_failed)
                 else obind (sscanf fmt_status (c_str got)) (\<lambda>vs.
                   case status (assign vs v) of
                     None \<Rightarrow> Undef Uninit_value
                   | Some st \<Rightarrow>
                       if st = 0 then Done (s1, assign vs v, Poll_break)
                       else poll f e p (emit (Usleep 100000) s1) (assign vs v)))
                = Done r"
      by (auto simp: obind_Done)
    have 2: "(if ret < 0 then Done (s1, v, Poll_failed)
                 else obind (sscanf fmt_status (c_str got)) (\<lambda>vs.
                   case status (assign vs v) of
                     None \<Rightarrow> Undef Uninit_value
                   | Some st \<Rightarrow>
                       if st = 0 then Done (s1, assign vs v, Poll_break)
                       else poll (Suc f) e p (emit (Usleep 100000) s1) (assign vs v)))
                = Done r"
    proof (cases "ret < 0")
      case True
      with 1 show ?thesis by simp
    next
      case nonneg: False
      with 1 obtain vs
        where sc: "sscanf fmt_status (c_str got) = Done vs"
          and 3: "(case status (assign vs v) of
                     None \<Rightarrow> Undef Uninit_value
                   | Some st \<Rightarrow>
                       if st = 0 then Done (s1, assign vs v, Poll_break)
                       else poll f e p (emit (Usleep 100000) s1) (assign vs v)) = Done r"
        by (auto simp: obind_Done)
      have "(case status (assign vs v) of
                     None \<Rightarrow> Undef Uninit_value
                   | Some st \<Rightarrow>
                       if st = 0 then Done (s1, assign vs v, Poll_break)
                       else poll (Suc f) e p (emit (Usleep 100000) s1) (assign vs v)) = Done r"
      proof (cases "status (assign vs v)")
        case None
        with 3 show ?thesis by simp
      next
        case (Some st)
        show ?thesis
        proof (cases "st = 0")
          case True
          with 3 Some show ?thesis by simp
        next
          case False
          with 3 Some have "poll f e p (emit (Usleep 100000) s1) (assign vs v) = Done r"
            by simp
          from Suc.IH [OF this] Some False show ?thesis
            by (simp del: poll.simps)
        qed
      qed
      with sc nonneg show ?thesis by (simp del: poll.simps)
    qed
    from bs_read_fuel [OF rd] 2 False show ?thesis
      by (subst poll.simps) (simp del: poll.simps read_loop.simps)
  qed
qed

lemma read_candidate_fuel:
  assumes "read_candidate f e s p i = Done r"
  shows "read_candidate (Suc f) e s p i = Done r"
proof -
  from assms obtain s1 r1 where w: "bs_write f e s p (dec_int i) = Done (s1, r1)"
    and 1: "(if r1 < 0 then Done (s1, None)
             else obind (bs_read f e s1 p (bufsiz e - 1)) (\<lambda>(s2, ret, got).
               if ret < 0 then Done (s2, None)
               else obind (parse_candidate (c_str got) i) (\<lambda>r. Done (s2, r))))
            = Done r"
    by (auto simp: read_candidate_def obind_Done)
  have 2: "(if r1 < 0 then Done (s1, None)
             else obind (bs_read (Suc f) e s1 p (bufsiz e - 1)) (\<lambda>(s2, ret, got).
               if ret < 0 then Done (s2, None)
               else obind (parse_candidate (c_str got) i) (\<lambda>r. Done (s2, r))))
            = Done r"
  proof (cases "r1 < 0")
    case True
    with 1 show ?thesis by simp
  next
    case False
    with 1 have "obind (bs_read f e s1 p (bufsiz e - 1)) (\<lambda>(s2, ret, got).
               if ret < 0 then Done (s2, None)
               else obind (parse_candidate (c_str got) i) (\<lambda>r. Done (s2, r))) = Done r"
      by simp
    then have "obind (bs_read (Suc f) e s1 p (bufsiz e - 1)) (\<lambda>(s2, ret, got).
               if ret < 0 then Done (s2, None)
               else obind (parse_candidate (c_str got) i) (\<lambda>r. Done (s2, r))) = Done r"
      by (rule obind_mono) (erule bs_read_fuel, assumption)
    with False show ?thesis by simp
  qed
  from bs_write_fuel [OF w] 2 show ?thesis
    by (simp add: read_candidate_def)
qed

lemma candidate_body_fuel:
  assumes "candidate_body f e K cfg p i s = Done r"
  shows "candidate_body (Suc f) e K cfg p i s = Done r"
  using assms unfolding candidate_body_def
  by (rule obind_mono) (erule read_candidate_fuel, assumption)

lemma candidate_loop_fuel:
  "candidate_loop f e K cfg p n i s = Done r \<Longrightarrow>
     candidate_loop (Suc f) e K cfg p n i s = Done r"
proof (induction f e K cfg p n i s rule: candidate_loop.induct)
  case (1 f e K cfg p n i s)
  show ?case
  proof (cases "i < n \<and> \<not> sigint e (looks s)")
    case False
    with "1.prems" show ?thesis
      by (subst candidate_loop.simps, subst (asm) candidate_loop.simps) auto
  next
    case True
    with "1.prems"
    have "obind (candidate_body f e K cfg p i (s\<lparr>looks := Suc (looks s)\<rparr>))
            (candidate_loop f e K cfg p n (i + 1)) = Done r"
      by (subst (asm) candidate_loop.simps) simp
    then obtain s1
      where b: "candidate_body f e K cfg p i (s\<lparr>looks := Suc (looks s)\<rparr>) = Done s1"
        and l: "candidate_loop f e K cfg p n (i + 1) s1 = Done r"
      by (auto simp: obind_Done)
    from True have "i < n" and "\<not> sigint e (looks s)" by simp_all
    from "1.IH" [OF this l] candidate_body_fuel [OF b] True show ?thesis
      by (subst candidate_loop.simps) simp
  qed
qed

text \<open>
  The fuel only bounds the loops: when \<^verbatim>\<open>blindscan\<close> returns with some amount of fuel, it
  returns the same with any larger amount.
\<close>

lemma blindscan_fuel_Suc:
  assumes "blindscan f e K cfg fe_id = Done r"
  shows "blindscan (Suc f) e K cfg fe_id = Done r"
proof (cases "access_ok e (bs_ctrl_path fe_id) \<and> access_ok e (bs_info_path fe_id)")
  case False
  with assms show ?thesis by (auto simp: blindscan_def split: if_splits)
next
  case True
  with assms obtain s1 r0
    where w: "bs_write f e start_state (bs_ctrl_path fe_id) (request cfg) = Done (s1, r0)"
      and 1: "(if r0 < 0 then Done (s1, Request_failed)
               else obind (poll f e (bs_ctrl_path fe_id) s1
                             \<lparr>status = None, num_info = None, progress = None\<rparr>)
                      (\<lambda>(s2, v, x).
                         case x of
                           Poll_cancelled \<Rightarrow> Done (s2, Cancelled)
                         | Poll_failed \<Rightarrow> Done (s2, Read_failed)
                         | Poll_break \<Rightarrow>
                             (case num_info v of
                                None \<Rightarrow> Undef Uninit_value
                              | Some n \<Rightarrow>
                                  obind (candidate_loop f e K cfg (bs_info_path fe_id) n 0 s2)
                                    (\<lambda>s3. Done (s3, Finished)))))
              = Done r"
    by (auto simp: blindscan_def obind_Done)
  have 2: "(if r0 < 0 then Done (s1, Request_failed)
               else obind (poll (Suc f) e (bs_ctrl_path fe_id) s1
                             \<lparr>status = None, num_info = None, progress = None\<rparr>)
                      (\<lambda>(s2, v, x).
                         case x of
                           Poll_cancelled \<Rightarrow> Done (s2, Cancelled)
                         | Poll_failed \<Rightarrow> Done (s2, Read_failed)
                         | Poll_break \<Rightarrow>
                             (case num_info v of
                                None \<Rightarrow> Undef Uninit_value
                              | Some n \<Rightarrow>
                                  obind (candidate_loop (Suc f) e K cfg (bs_info_path fe_id) n 0 s2)
                                    (\<lambda>s3. Done (s3, Finished)))))
              = Done r"
  proof (cases "r0 < 0")
    case True
    with 1 show ?thesis by simp
  next
    case False
    with 1 have "obind (poll f e (bs_ctrl_path fe_id) s1
                             \<lparr>status = None, num_info = None, progress = None\<rparr>)
                      (\<lambda>(s2, v, x).
                         case x of
                           Poll_cancelled \<Rightarrow> Done (s2, Cancelled)
                         | Poll_failed \<Rightarrow> Done (s2, Read_failed)
                         | Poll_break \<Rightarrow>
                             (case num_info v of
                                None \<Rightarrow> Undef Uninit_value
                              | Some n \<Rightarrow>
                                  obind (candidate_loop f e K cfg (bs_info_path fe_id) n 0 s2)
                                    (\<lambda>s3. Done (s3, Finished)))) = Done r"
      by simp
    then have "obind (poll (Suc f) e (bs_ctrl_path fe_id) s1
                             \<lparr>status = None, num_info = None, progress = None\<rparr>)
                      (\<lambda>(s2, v, x).
                         case x of
                           Poll_cancelled \<Rightarrow> Done (s2, Cancelled)
                         | Poll_failed \<Rightarrow> Done (s2, Read_failed)
                         | Poll_break \<Rightarrow>
                             (case num_info v of
                                None \<Rightarrow> Undef Uninit_value
                              | Some n \<Rightarrow>
                                  obind (candidate_loop (Suc f) e K cfg (bs_info_path fe_id) n 0 s2)
                                    (\<lambda>s3. Done (s3, Finished)))) = Done r"
    proof (rule obind_mono)
      fix x
      assume "poll f e (bs_ctrl_path fe_id) s1
                \<lparr>status = None, num_info = None, progress = None\<rparr> = Done x"
      then show "poll (Suc f) e (bs_ctrl_path fe_id) s1
                \<lparr>status = None, num_info = None, progress = None\<rparr> = Done x"
        by (rule poll_fuel)
    next
      fix x :: "io_state \<times> locals \<times> poll_exit"
      obtain s2 v px where x: "x = (s2, v, px)" by (cases x) auto
      assume "(case x of (s2, v, x) \<Rightarrow>
                         case x of
                           Poll_cancelled \<Rightarrow> Done (s2, Cancelled)
                         | Poll_failed \<Rightarrow> Done (s2, Read_failed)
                         | Poll_break \<Rightarrow>
                             (case num_info v of
                                None \<Rightarrow> Undef Uninit_value
                              | Some n \<Rightarrow>
                                  obind (candidate_loop f e K cfg (bs_info_path fe_id) n 0 s2)
                                    (\<lambda>s3. Done (s3, Finished)))) = Done r"
      with x show "(case x of (s2, v, x) \<Rightarrow>
                         case x of
                           Poll_cancelled \<Rightarrow> Done (s2, Cancelled)
                         | Poll_failed \<Rightarrow> Done (s2, Read_failed)
                         | Poll_break \<Rightarrow>
                             (case num_info v of
                                None \<Rightarrow> Undef Uninit_value
                              | Some n \<Rightarrow>
                                  obind (candidate_loop (Suc f) e K cfg (bs_info_path fe_id) n 0 s2)
                                    (\<lambda>s3. Done (s3, Finished)))) = Done r"
        by (cases px; cases "num_info v")
          (auto simp: obind_Done dest: candidate_loop_fuel)
    qed
    with False show ?thesis by simp
  qed
  from bs_write_fuel [OF w] 2 True show ?thesis
    by (simp add: blindscan_def del: poll.simps)
qed

lemma blindscan_fuel:
  assumes "blindscan f e K cfg fe_id = Done r"
  shows "blindscan (f + n) e K cfg fe_id = Done r"
  using assms by (induction n) (simp_all add: blindscan_fuel_Suc)


end
